theory Spec2Isabelle
  imports Complex_Main "HOL-Library.Product_Lexorder" "HOL-Library.Multiset"
begin

section \<open>LaundryIQ data logger: parser, scan ordering, sampling pipeline, link session\<close>

text \<open>
  A shallow embedding of \<^verbatim>\<open>laundryiq_logger.py\<close>. Python \<^verbatim>\<open>str\<close> values are lists of
  Unicode code points, \<^verbatim>\<open>bytes\<close> values are lists of 8-bit characters. Python \<^verbatim>\<open>float\<close>
  values are modelled by the rational number they denote: the rounding of a decimal
  literal to binary64, overflow to infinity and NaN are outside the model.
\<close>

subsection \<open>Text, bytes and the library functions the parser calls\<close>

type_synonym codepoint = nat
type_synonym pystr = "codepoint list"
type_synonym bytes = "char list"

definition lit :: "string \<Rightarrow> pystr" where
  "lit s = map of_char s"

datatype py_error = ValueError | IndexError | TypeError

text \<open>
  \<^verbatim>\<open>data.decode("utf-8", errors="replace")\<close>: CPython replaces every maximal ill-formed
  subsequence by one U+FFFD and goes on behind it. A lead byte whose sequence is cut
  off by the end of the data is replaced together with the continuation bytes read so far.
\<close>

definition is_cont :: "nat \<Rightarrow> bool" where
  "is_cont b \<longleftrightarrow> 0x80 \<le> b \<and> b \<le> 0xBF"

definition second_ok :: "nat \<Rightarrow> nat \<Rightarrow> bool" where
  "second_ok b0 b1 \<longleftrightarrow>
     (if b0 = 0xE0 then 0xA0 else if b0 = 0xF0 then 0x90 else 0x80) \<le> b1 \<and>
     b1 \<le> (if b0 = 0xED then 0x9F else if b0 = 0xF4 then 0x8F else 0xBF)"

fun utf8_replace :: "nat list \<Rightarrow> pystr" where
  "utf8_replace [] = []"
| "utf8_replace (b0 # bs) =
     (if b0 < 0x80 then b0 # utf8_replace bs
      else if b0 < 0xC2 \<or> 0xF4 < b0 then 0xFFFD # utf8_replace bs
      else if b0 < 0xE0 then
        (case bs of
           [] \<Rightarrow> [0xFFFD]
         | b1 # r1 \<Rightarrow>
             if is_cont b1 then ((b0 - 0xC0) * 64 + (b1 - 0x80)) # utf8_replace r1
             else 0xFFFD # utf8_replace bs)
      else if b0 < 0xF0 then
        (case bs of
           [] \<Rightarrow> [0xFFFD]
         | b1 # r1 \<Rightarrow>
             if \<not> second_ok b0 b1 then 0xFFFD # utf8_replace bs
             else (case r1 of
                     [] \<Rightarrow> [0xFFFD]
                   | b2 # r2 \<Rightarrow>
                       if \<not> is_cont b2 then 0xFFFD # utf8_replace r1
                       else ((b0 - 0xE0) * 4096 + (b1 - 0x80) * 64 + (b2 - 0x80))
                              # utf8_replace r2))
      else
        (case bs of
           [] \<Rightarrow> [0xFFFD]
         | b1 # r1 \<Rightarrow>
             if \<not> second_ok b0 b1 then 0xFFFD # utf8_replace bs
             else (case r1 of
                     [] \<Rightarrow> [0xFFFD]
                   | b2 # r2 \<Rightarrow>
                       if \<not> is_cont b2 then 0xFFFD # utf8_replace r1
                       else (case r2 of
                               [] \<Rightarrow> [0xFFFD]
                             | b3 # r3 \<Rightarrow>
                                 if \<not> is_cont b3 then 0xFFFD # utf8_replace r2
                                 else ((b0 - 0xF0) * 262144 + (b1 - 0x80) * 4096
                                        + (b2 - 0x80) * 64 + (b3 - 0x80))
                                        # utf8_replace r3))))"

definition decode :: "bytes \<Rightarrow> pystr" where
  "decode data = utf8_replace (map of_char data)"

text \<open>
  What the decoder is measured against: the Unicode scalar values, and the UTF-8 encoding of
  one of them (\<^verbatim>\<open>chr(cp).encode("utf-8")\<close>). A byte sequence is well formed when it is the
  encoding of a scalar value.
\<close>

definition scalar :: "codepoint \<Rightarrow> bool" where
  "scalar cp \<longleftrightarrow> cp < 0xD800 \<or> (0xE000 \<le> cp \<and> cp < 0x110000)"

definition utf8_encode :: "codepoint \<Rightarrow> nat list" where
  "utf8_encode cp =
     (if cp < 0x80 then [cp]
      else if cp < 0x800 then [0xC0 + cp div 64, 0x80 + cp mod 64]
      else if cp < 0x10000 then [0xE0 + cp div 4096, 0x80 + cp div 64 mod 64, 0x80 + cp mod 64]
      else [0xF0 + cp div 262144, 0x80 + cp div 4096 mod 64, 0x80 + cp div 64 mod 64,
            0x80 + cp mod 64])"

text \<open>
  \<^verbatim>\<open>str.isspace\<close>, which is also what \<^verbatim>\<open>str.strip()\<close> removes and what \<^verbatim>\<open>\s\<close> matches in a
  \<^verbatim>\<open>str\<close> pattern.
\<close>

definition isspace :: "codepoint \<Rightarrow> bool" where
  "isspace c \<longleftrightarrow>
     (0x09 \<le> c \<and> c \<le> 0x0D) \<or> (0x1C \<le> c \<and> c \<le> 0x20) \<or> c = 0x85 \<or> c = 0xA0 \<or>
     c = 0x1680 \<or> (0x2000 \<le> c \<and> c \<le> 0x200A) \<or> c = 0x2028 \<or> c = 0x2029 \<or>
     c = 0x202F \<or> c = 0x205F \<or> c = 0x3000"

text \<open>
  \<^verbatim>\<open>\d\<close> in a \<^verbatim>\<open>str\<close> pattern matches the Unicode decimal digits (category Nd), which
  come in runs of ten, zero to nine; \<open>nd_zeros\<close> lists the zero of every run
  (Unicode 14, the database of CPython 3.11).
\<close>

definition nd_zeros :: "codepoint list" where
  "nd_zeros =
     [0x660, 0x6F0, 0x7C0, 0x966, 0x9E6, 0xA66, 0xAE6, 0xB66, 0xBE6, 0xC66, 0xCE6,
      0xD66, 0xDE6, 0xE50, 0xED0, 0xF20, 0x1040, 0x1090, 0x17E0, 0x1810, 0x1946, 0x19D0,
      0x1A80, 0x1A90, 0x1B50, 0x1BB0, 0x1C40, 0x1C50, 0xA620, 0xA8D0, 0xA900, 0xA9D0,
      0xA9F0, 0xAA50, 0xABF0, 0xFF10, 0x104A0, 0x10D30, 0x11066, 0x110F0, 0x11136,
      0x111D0, 0x112F0, 0x11450, 0x114D0, 0x11650, 0x116C0, 0x11730, 0x118E0, 0x11950,
      0x11C50, 0x11D50, 0x11DA0, 0x16A60, 0x16AC0, 0x16B50, 0x1D7CE, 0x1D7D8, 0x1D7E2,
      0x1D7EC, 0x1D7F6, 0x1E140, 0x1E2F0, 0x1E950, 0x1FBF0]"

definition decimal :: "codepoint \<Rightarrow> nat option" where
  "decimal c =
     (if c < 0x80 then (if 0x30 \<le> c \<and> c \<le> 0x39 then Some (c - 0x30) else None)
      else map_option (\<lambda>z. c - z) (find (\<lambda>z. z \<le> c \<and> c \<le> z + 9) nd_zeros))"

definition is_digit :: "codepoint \<Rightarrow> bool" where
  "is_digit c \<longleftrightarrow> decimal c \<noteq> None"

definition digits_value :: "pystr \<Rightarrow> nat" where
  "digits_value ds =
     foldl (\<lambda>a c. 10 * a + (case decimal c of Some d \<Rightarrow> d | None \<Rightarrow> 0)) 0 ds"

text \<open>
  \<^verbatim>\<open>float(s)\<close> on the strings the token class \<^verbatim>\<open>[\d.+-]+\<close> admits (no whitespace,
  exponent, underscore, \<^verbatim>\<open>inf\<close> or \<^verbatim>\<open>nan\<close> can occur in them): an optional sign, then
  digits with at most one point and at least one digit; anything else is a
  \<^verbatim>\<open>ValueError\<close>.
\<close>

definition py_float :: "pystr \<Rightarrow> py_error + rat" where
  "py_float s =
     (let neg = (case s of [] \<Rightarrow> False | c # _ \<Rightarrow> c = 0x2D);
          body = (case s of [] \<Rightarrow> [] | c # r \<Rightarrow> if c = 0x2D \<or> c = 0x2B then r else s);
          ip = takeWhile is_digit body;
          rest = dropWhile is_digit body;
          sg = (if neg then - 1 else 1 :: rat)
      in case rest of
           [] \<Rightarrow> if ip = [] then Inl ValueError else Inr (sg * of_nat (digits_value ip))
         | c # fp \<Rightarrow>
             if c = 0x2E \<and> list_all is_digit fp \<and> (ip \<noteq> [] \<or> fp \<noteq> [])
             then Inr (sg * (of_nat (digits_value (ip @ fp)) / 10 ^ length fp))
             else Inl ValueError)"

text \<open>\<^verbatim>\<open>s.split("\n")\<close>: never empty, one more piece than there are line feeds.\<close>

fun split_nl :: "pystr \<Rightarrow> pystr list" where
  "split_nl [] = [[]]"
| "split_nl (c # cs) =
     (if c = 0x0A then [] # split_nl cs
      else (case split_nl cs of [] \<Rightarrow> [[c]] | l # ls \<Rightarrow> (c # l) # ls))"

definition strip :: "pystr \<Rightarrow> pystr" where
  "strip s = rev (dropWhile isspace (rev (dropWhile isspace s)))"

text \<open>\<^verbatim>\<open>xs[-1]\<close> raises \<^verbatim>\<open>IndexError\<close> on an empty list.\<close>

definition last_item :: "'a list \<Rightarrow> py_error + 'a" where
  "last_item xs = (case rev xs of [] \<Rightarrow> Inl IndexError | x # _ \<Rightarrow> Inr x)"

subsection \<open>DataParser\<close>

datatype channel = Ct_clamp | Hall1 | Hall2

type_synonym reading = "channel \<Rightarrow> rat option"

definition no_reading :: reading where
  "no_reading = (\<lambda>_. None)"

text \<open>The tags of \<^verbatim>\<open>PATTERNS\<close>, in the dictionary's order.\<close>

definition PATTERNS :: "(channel \<times> pystr) list" where
  "PATTERNS = [(Ct_clamp, lit ''CT_A''), (Hall1, lit ''HALL1_A''), (Hall2, lit ''HALL2_A'')]"

definition is_sep :: "codepoint \<Rightarrow> bool" where
  "is_sep c \<longleftrightarrow> c = 0x3A \<or> isspace c \<or> c = 0x3D"

definition is_numeric :: "codepoint \<Rightarrow> bool" where
  "is_numeric c \<longleftrightarrow> is_digit c \<or> c = 0x2E \<or> c = 0x2B \<or> c = 0x2D"

text \<open>
  The pattern \<^verbatim>\<open>TAG[:\s=]+([\d.+-]+)\<close> tried at the start of \<open>s\<close>; the result is
  group 1. The two character classes are disjoint, so the greedy runs are the only
  way to match and backtracking finds nothing else.
\<close>

definition match_here :: "pystr \<Rightarrow> pystr \<Rightarrow> pystr option" where
  "match_here tg s =
     (if take (length tg) s = tg then
        (let r = drop (length tg) s;
             seps = takeWhile is_sep r;
             num = takeWhile is_numeric (dropWhile is_sep r)
         in if seps \<noteq> [] \<and> num \<noteq> [] then Some num else None)
      else None)"

text \<open>\<^verbatim>\<open>pattern.search(line)\<close>: the leftmost position where the pattern matches.\<close>

fun re_search :: "pystr \<Rightarrow> pystr \<Rightarrow> pystr option" where
  "re_search tg [] = match_here tg []"
| "re_search tg (c # cs) =
     (case match_here tg (c # cs) of Some g \<Rightarrow> Some g | None \<Rightarrow> re_search tg cs)"

text \<open>The body of the inner loop: one pattern on one line.\<close>

definition apply_pattern :: "pystr \<Rightarrow> reading \<Rightarrow> channel \<times> pystr \<Rightarrow> reading" where
  "apply_pattern line result kp =
     (case re_search (snd kp) line of
        None \<Rightarrow> result
      | Some g \<Rightarrow>
          (case py_float g of
             Inr v \<Rightarrow> result(fst kp := Some v)
           | Inl e \<Rightarrow> result))"

text \<open>The body of the outer loop: one complete line.\<close>

definition process_line :: "reading \<Rightarrow> pystr \<Rightarrow> reading" where
  "process_line result line0 =
     (let line = strip line0
      in if line = [] then result else foldl (apply_pattern line) result PATTERNS)"

text \<open>
  \<^verbatim>\<open>DataParser.parse\<close>: takes the buffer and the data, returns the new buffer and the
  dictionary of the call.
\<close>

definition parse :: "pystr \<Rightarrow> bytes \<Rightarrow> py_error + (pystr \<times> reading)" where
  "parse buffer data =
     (let buffer1 = buffer @ decode data;
          lines = split_nl buffer1
      in case last_item lines of
           Inl e \<Rightarrow> Inl e
         | Inr l \<Rightarrow> Inr (l, foldl process_line no_reading (butlast lines)))"

subsection \<open>The consumer's merge of parser output (the \<^verbatim>\<open>rx\<close> branch of \<^verbatim>\<open>_poll_events\<close>)\<close>

text \<open>
  \<^verbatim>\<open>for key, value in parsed.items(): if value is not None: self.pending_data[key] = value\<close>
\<close>

definition merge_pending :: "reading \<Rightarrow> reading \<Rightarrow> reading" where
  "merge_pending pending parsed =
     foldl (\<lambda>p key. case parsed key of None \<Rightarrow> p | Some v \<Rightarrow> p(key := Some v))
       pending [Ct_clamp, Hall1, Hall2]"

text \<open>
  Feeding chunks to the parser one call at a time, each call's dictionary merged into
  the pending values as the consumer does.
\<close>

fun feed_all :: "pystr \<Rightarrow> reading \<Rightarrow> bytes list \<Rightarrow> py_error + (pystr \<times> reading)" where
  "feed_all buffer pending [] = Inr (buffer, pending)"
| "feed_all buffer pending (d # ds) =
     (case parse buffer d of
        Inl e \<Rightarrow> Inl e
      | Inr (b, r) \<Rightarrow> feed_all b (merge_pending pending r) ds)"

text \<open>The (channel, value) pairs a call reports, and their accumulation over calls.\<close>

definition items :: "reading \<Rightarrow> (channel \<times> rat) list" where
  "items r =
     concat (map (\<lambda>key. case r key of None \<Rightarrow> [] | Some v \<Rightarrow> [(key, v)])
       [Ct_clamp, Hall1, Hall2])"

fun feed_items :: "pystr \<Rightarrow> bytes list \<Rightarrow> (channel \<times> rat) list" where
  "feed_items buffer [] = []"
| "feed_items buffer (d # ds) =
     (case parse buffer d of
        Inl e \<Rightarrow> []
      | Inr (b, r) \<Rightarrow> items r @ feed_items b ds)"

text \<open>
  A complete line that is noise: on the trimmed line every pattern either finds no
  match or finds a token that \<^verbatim>\<open>float\<close> rejects.
\<close>

definition noise :: "pystr \<Rightarrow> bool" where
  "noise line \<longleftrightarrow>
     list_all (\<lambda>kp. case re_search (snd kp) (strip line) of
                      None \<Rightarrow> True
                    | Some g \<Rightarrow> isl (py_float g)) PATTERNS"

subsection \<open>BleWorker: scanning\<close>

record FoundDevice =
  name :: pystr
  address :: pystr
  rssi :: "int option"

text \<open>What \<^verbatim>\<open>BleakScanner.discover\<close> reports of a device; each attribute may be missing.\<close>

record BLEDevice =
  dev_name :: "pystr option"
  dev_address :: pystr
  dev_rssi :: "int option"

datatype event =
    Scan_result "FoundDevice list"
  | Rx bytes
  | Status pystr
  | Connected bool
  | Error pystr

text \<open>\<^verbatim>\<open>x in y\<close> on strings.\<close>

fun contains :: "pystr \<Rightarrow> pystr \<Rightarrow> bool" where
  "contains y [] \<longleftrightarrow> True"
| "contains [] (c # x) \<longleftrightarrow> False"
| "contains (d # y) (c # x) \<longleftrightarrow> take (length (c # x)) (d # y) = c # x \<or> contains y (c # x)"

text \<open>
  The loop that builds \<^verbatim>\<open>found\<close>. \<^verbatim>\<open>str.lower\<close> is Python's Unicode case mapping; it is
  the parameter \<open>lower\<close>, and is not called when the filter is empty.
\<close>

definition keep_device :: "(pystr \<Rightarrow> pystr) \<Rightarrow> pystr \<Rightarrow> BLEDevice \<Rightarrow> FoundDevice list" where
  "keep_device lower name_filter d =
     (let name0 = strip (case dev_name d of None \<Rightarrow> [] | Some n \<Rightarrow> n)
      in if name_filter \<noteq> [] \<and> \<not> contains (lower name0) (lower name_filter) then []
         else [\<lparr>name = (if name0 = [] then lit ''<unknown>'' else name0),
                address = dev_address d,
                rssi = dev_rssi d\<rparr>])"

definition found_devices :: "(pystr \<Rightarrow> pystr) \<Rightarrow> pystr \<Rightarrow> BLEDevice list \<Rightarrow> FoundDevice list" where
  "found_devices lower name_filter devices = concat (map (keep_device lower name_filter) devices)"

text \<open>\<^verbatim>\<open>x.rssi or -999\<close>: \<^verbatim>\<open>None\<close> and \<^verbatim>\<open>0\<close> are both falsy.\<close>

definition rssi_or :: "FoundDevice \<Rightarrow> int" where
  "rssi_or x = (case rssi x of None \<Rightarrow> - 999 | Some r \<Rightarrow> if r = 0 then - 999 else r)"

text \<open>The sort key \<^verbatim>\<open>(x.name == "<unknown>", -(x.rssi or -999))\<close>; tuples compare lexicographically.\<close>

definition scan_key :: "FoundDevice \<Rightarrow> bool \<times> int" where
  "scan_key x = (name x = lit ''<unknown>'', - rssi_or x)"

text \<open>\<^verbatim>\<open>found.sort(key=...)\<close>: a stable sort, so the result is the stable insertion sort's.\<close>

definition sort_found :: "FoundDevice list \<Rightarrow> FoundDevice list" where
  "sort_found found = sort_key scan_key found"

text \<open>
  \<^verbatim>\<open>_scan_and_post\<close>: \<open>discovered\<close> is what \<^verbatim>\<open>discover\<close> did, \<open>Inl\<close> the \<^verbatim>\<open>repr\<close> of the
  exception it raised. The result is the events put on the queue.
\<close>

definition scan_and_post ::
  "(pystr \<Rightarrow> pystr) \<Rightarrow> pystr \<Rightarrow> pystr + BLEDevice list \<Rightarrow> event list" where
  "scan_and_post lower name_filter discovered =
     (case discovered of
        Inl e \<Rightarrow> [Error (lit ''Scan failed: '' @ e)]
      | Inr devices \<Rightarrow> [Scan_result (sort_found (found_devices lower name_filter devices))])"

text \<open>
  The order the specification words: named before unnamed, and within a group strictly
  descending signal strength, a missing strength weakest.
\<close>

definition spec_before :: "FoundDevice \<Rightarrow> FoundDevice \<Rightarrow> bool" where
  "spec_before a b \<longleftrightarrow>
     (if (name a = lit ''<unknown>'') \<noteq> (name b = lit ''<unknown>'')
      then name b = lit ''<unknown>''
      else (case (rssi a, rssi b) of
              (Some x, Some y) \<Rightarrow> y < x
            | (Some x, None) \<Rightarrow> True
            | (None, Some y) \<Rightarrow> False
            | (None, None) \<Rightarrow> True))"

text \<open>The same order with ties allowed.\<close>

definition weak_before :: "FoundDevice \<Rightarrow> FoundDevice \<Rightarrow> bool" where
  "weak_before a b \<longleftrightarrow>
     (if (name a = lit ''<unknown>'') \<noteq> (name b = lit ''<unknown>'')
      then name b = lit ''<unknown>''
      else (case (rssi a, rssi b) of
              (Some x, Some y) \<Rightarrow> y \<le> x
            | (Some x, None) \<Rightarrow> True
            | (None, Some y) \<Rightarrow> False
            | (None, None) \<Rightarrow> True))"

text \<open>
  The order of the posted list in terms of the strength the key uses (\<^verbatim>\<open>x.rssi or -999\<close>):
  named before unnamed, and within a group the larger effective strength first.
\<close>

definition posted_before :: "FoundDevice \<Rightarrow> FoundDevice \<Rightarrow> bool" where
  "posted_before a b \<longleftrightarrow>
     (if (name a = lit ''<unknown>'') \<noteq> (name b = lit ''<unknown>'')
      then name b = lit ''<unknown>''
      else rssi_or b \<le> rssi_or a)"

text \<open>A strength that is missing, or reported, nonzero and above the sentinel.\<close>

definition plain_rssi :: "FoundDevice \<Rightarrow> bool" where
  "plain_rssi d \<longleftrightarrow> (case rssi d of None \<Rightarrow> True | Some r \<Rightarrow> r \<noteq> 0 \<and> - 999 < r)"

definition same_group :: "FoundDevice \<Rightarrow> FoundDevice \<Rightarrow> bool" where
  "same_group a b \<longleftrightarrow> (name a = lit ''<unknown>'') = (name b = lit ''<unknown>'')"

text \<open>
  A device of strength 0 as the weakest of its group, as the specification words it: behind
  it, its group holds only devices whose strength is missing or 0.
\<close>

definition zero_weakest :: "FoundDevice list \<Rightarrow> bool" where
  "zero_weakest posted \<longleftrightarrow>
     sorted_wrt (\<lambda>a b. same_group a b \<and> rssi a = Some 0
                       \<longrightarrow> (case rssi b of None \<Rightarrow> True | Some r \<Rightarrow> r = 0)) posted"

text \<open>A device whose strength 0 is replaced by a missing strength.\<close>

definition zero_as_missing :: "FoundDevice \<Rightarrow> FoundDevice" where
  "zero_as_missing d = d\<lparr>rssi := (if rssi d = Some 0 then None else rssi d)\<rparr>"

subsection \<open>LaundryIQLogger: the sampling pipeline and the state tracker\<close>

record DataSample =
  timestamp :: rat
  ct_clamp :: "rat option"
  hall1 :: "rat option"
  hall2 :: "rat option"
  state :: pystr
  elapsed_time :: rat

record StateChange =
  sc_timestamp :: rat
  sc_state :: pystr
  sc_elapsed_time :: rat

text \<open>
  The attributes of the application object that the modelled methods read or write.
  \<open>csv_file\<close> is \<^verbatim>\<open>None\<close> or the rows written so far (a row is the sample it prints);
  \<open>log_text\<close> is the content of the log widget.
\<close>

record app =
  parser_buffer :: pystr
  data_buffer :: "DataSample list"
  state_changes :: "StateChange list"
  current_state :: pystr
  current_state_var :: pystr
  logging_start_time :: "rat option"
  is_logging :: bool
  csv_file :: "DataSample list option"
  sample_interval :: rat
  last_sample_time :: rat
  pending_data :: reading
  calibration_factors :: "channel \<Rightarrow> rat"
  log_text :: pystr
  export_btn_enabled :: bool

text \<open>\<^verbatim>\<open>deque(maxlen=n).append(x)\<close>: append on the right, then drop from the left if too long.\<close>

definition deque_append :: "nat \<Rightarrow> 'a list \<Rightarrow> 'a \<Rightarrow> 'a list" where
  "deque_append maxlen d x = (let d1 = d @ [x] in if maxlen < length d1 then tl d1 else d1)"

definition calibrated :: "app \<Rightarrow> channel \<Rightarrow> rat option" where
  "calibrated s key =
     (case pending_data s key of None \<Rightarrow> None | Some v \<Rightarrow> Some (v * calibration_factors s key))"

text \<open>The sample \<^verbatim>\<open>_process_sample\<close> constructs when logging started at \<open>t0\<close>.\<close>

definition make_sample :: "rat \<Rightarrow> rat \<Rightarrow> app \<Rightarrow> DataSample" where
  "make_sample ts t0 s =
     \<lparr>timestamp = ts,
      ct_clamp = calibrated s Ct_clamp,
      hall1 = calibrated s Hall1,
      hall2 = calibrated s Hall2,
      state = current_state s,
      elapsed_time = ts - t0\<rparr>"

text \<open>\<^verbatim>\<open>_process_sample\<close>; \<^verbatim>\<open>not self.logging_start_time\<close> holds for \<^verbatim>\<open>None\<close> and for \<^verbatim>\<open>0.0\<close>.\<close>

definition process_sample :: "rat \<Rightarrow> app \<Rightarrow> app" where
  "process_sample ts s =
     (case logging_start_time s of
        None \<Rightarrow> s
      | Some t0 \<Rightarrow>
          if t0 = 0 then s
          else
            (let sample = make_sample ts t0 s;
                 s1 = s\<lparr>data_buffer := deque_append 10000 (data_buffer s) sample\<rparr>;
                 s2 = (if length (data_buffer s1) = 1 \<and> \<not> is_logging s1
                       then s1\<lparr>export_btn_enabled := True\<rparr> else s1)
             in case csv_file s2 of
                  None \<Rightarrow> s2
                | Some rows \<Rightarrow> s2\<lparr>csv_file := Some (rows @ [sample])\<rparr>))"

text \<open>The \<^verbatim>\<open>rx\<close> branch of \<^verbatim>\<open>_poll_events\<close>; \<open>now\<close> is what \<^verbatim>\<open>time.time()\<close> returns.\<close>

definition on_rx :: "bytes \<Rightarrow> rat \<Rightarrow> app \<Rightarrow> py_error + app" where
  "on_rx data now s =
     (case parse (parser_buffer s) data of
        Inl e \<Rightarrow> Inl e
      | Inr (b, parsed) \<Rightarrow>
          (let s1 = s\<lparr>parser_buffer := b,
                      pending_data := merge_pending (pending_data s) parsed\<rparr>
           in if is_logging s1 \<and> sample_interval s1 \<le> now - last_sample_time s1
              then Inr ((process_sample now s1)\<lparr>last_sample_time := now\<rparr>)
              else Inr s1))"

text \<open>The \<^verbatim>\<open>rx\<close> events of the queue handled one after another, each at its time.\<close>

fun rx_all :: "(bytes \<times> rat) list \<Rightarrow> app \<Rightarrow> py_error + app" where
  "rx_all [] s = Inr s"
| "rx_all (ev # evs) s =
     (case on_rx (fst ev) (snd ev) s of
        Inl e \<Rightarrow> Inl e
      | Inr s1 \<Rightarrow> rx_all evs s1)"

text \<open>
  \<^verbatim>\<open>_update_calibration\<close>; \<open>conv key\<close> is what \<^verbatim>\<open>float\<close> made of the entry field of \<open>key\<close>.
\<close>

definition update_calibration :: "(channel \<Rightarrow> py_error + rat) \<Rightarrow> app \<Rightarrow> app" where
  "update_calibration conv s =
     s\<lparr>calibration_factors :=
         foldl (\<lambda>f key. case conv key of Inr v \<Rightarrow> f(key := v) | Inl e \<Rightarrow> f)
           (calibration_factors s) [Ct_clamp, Hall1, Hall2]\<rparr>"

text \<open>
  \<^verbatim>\<open>_on_state_button\<close>; \<open>now1\<close> and \<open>now2\<close> are the two readings of the clock, \<open>fmt\<close> is
  the formatting \<^verbatim>\<open>{elapsed:.1f}\<close>. Subtracting \<^verbatim>\<open>None\<close> from a float is a \<^verbatim>\<open>TypeError\<close>.
\<close>

definition on_state_button ::
  "(rat \<Rightarrow> pystr) \<Rightarrow> pystr \<Rightarrow> rat \<Rightarrow> rat \<Rightarrow> app \<Rightarrow> py_error + app" where
  "on_state_button fmt st now1 now2 s =
     (if \<not> is_logging s
      then Inr (s\<lparr>log_text := log_text s @ lit ''State change ignored: Not logging.'' @ [0x0A]\<rparr>)
      else
        (case logging_start_time s of
           None \<Rightarrow> Inl TypeError
         | Some t0 \<Rightarrow>
             (let elapsed = now1 - t0
              in Inr (s\<lparr>current_state := st,
                        current_state_var := st,
                        state_changes := state_changes s
                          @ [\<lparr>sc_timestamp = now2, sc_state = st, sc_elapsed_time = elapsed\<rparr>],
                        log_text := log_text s @ lit ''State changed to: '' @ st
                          @ lit '' (t='' @ fmt elapsed @ lit ''s)'' @ [0x0A]\<rparr>))))"

text \<open>Emitting one sample after another, at the given times.\<close>

definition emit_all :: "rat list \<Rightarrow> app \<Rightarrow> app" where
  "emit_all tss s = foldl (\<lambda>s1 ts. process_sample ts s1) s tss"

subsection \<open>BleWorker: connecting and disconnecting\<close>

text \<open>
  The radio library is the environment. A \<^verbatim>\<open>BleakClient\<close> object is identified by the
  number of clients constructed before it; \<open>calls\<close> is the trace of the operations the
  worker invoked on clients, \<open>events\<close> the queue in the order of the \<^verbatim>\<open>put\<close>s. What each
  operation does in one run of \<^verbatim>\<open>_connect_and_post\<close> is given by a \<open>radio\<close> record;
  \<open>Raises\<close> carries \<^verbatim>\<open>str(e)\<close>. The events that the library's own disconnected-callback
  puts are not part of the run.
\<close>

datatype radio_call =
    Stop_notify nat
  | Disconnect nat
  | Set_disconnected_callback nat
  | Connect nat
  | Get_services nat
  | Get_service nat
  | Start_notify nat

datatype 'a outcome = Returns 'a | Raises pystr | Raises_TypeError pystr

record services =
  has_get_service :: bool
  nus_service :: bool

record radio =
  old_stop_notify :: "unit outcome"
  old_disconnect :: "unit outcome"
  has_set_disconnected_callback :: bool
  connect_result :: "bool outcome"
  is_connected :: bool
  services_attr :: "services option"
  get_services_callable :: bool
  get_services_awaited :: "services option outcome"
  get_services_called :: "services option outcome"
  start_notify :: "unit outcome"
  cleanup_stop_notify :: "unit outcome"
  cleanup_disconnect :: "unit outcome"

record worker =
  client :: "nat option"
  connected_address :: "pystr option"
  events :: "event list"
  calls :: "radio_call list"
  clients_made :: nat

definition NUS_SERVICE_UUID :: pystr where
  "NUS_SERVICE_UUID = lit ''6e400001-b5a3-f393-e0a9-e50e24dcca9e''"

text \<open>
  \<^verbatim>\<open>_disconnect_silent\<close>: works on \<^verbatim>\<open>self._client\<close> only. Both \<^verbatim>\<open>except Exception: pass\<close>
  clauses go on as if the call had returned.
\<close>

definition disconnect_silent :: "unit outcome \<Rightarrow> unit outcome \<Rightarrow> worker \<Rightarrow> worker" where
  "disconnect_silent stop disc w =
     (case client w of
        None \<Rightarrow> w
      | Some c \<Rightarrow>
          (let w1 = w\<lparr>calls := calls w @ [Stop_notify c]\<rparr>;
               w2 = (case stop of Returns u \<Rightarrow> w1 | Raises e \<Rightarrow> w1 | Raises_TypeError e \<Rightarrow> w1);
               w3 = w2\<lparr>calls := calls w2 @ [Disconnect c]\<rparr>;
               w4 = (case disc of Returns u \<Rightarrow> w3 | Raises e \<Rightarrow> w3 | Raises_TypeError e \<Rightarrow> w3)
           in w4\<lparr>client := None, connected_address := None\<rparr>))"

text \<open>
  Finding the service collection of client \<open>c\<close>: the attribute, else \<^verbatim>\<open>await get_services()\<close>,
  else, after a \<^verbatim>\<open>TypeError\<close>, the plain call. \<open>Inl\<close> is an exception that leaves the
  \<^verbatim>\<open>try\<close> block.
\<close>

definition fetch_services :: "radio \<Rightarrow> nat \<Rightarrow> worker \<Rightarrow> (pystr + services option) \<times> worker" where
  "fetch_services r c w =
     (case services_attr r of
        Some sv \<Rightarrow> (Inr (Some sv), w)
      | None \<Rightarrow>
          if \<not> get_services_callable r then (Inr None, w)
          else
            (let w1 = w\<lparr>calls := calls w @ [Get_services c]\<rparr>
             in case get_services_awaited r of
                  Returns sv \<Rightarrow> (Inr sv, w1)
                | Raises e \<Rightarrow> (Inl e, w1)
                | Raises_TypeError e \<Rightarrow>
                    (let w2 = w1\<lparr>calls := calls w1 @ [Get_services c]\<rparr>
                     in case get_services_called r of
                          Returns sv \<Rightarrow> (Inr sv, w2)
                        | Raises e2 \<Rightarrow> (Inl e2, w2)
                        | Raises_TypeError e2 \<Rightarrow> (Inl e2, w2))))"

text \<open>
  \<^verbatim>\<open>start_notify\<close> and, when it returns, the bookkeeping and the two events of success.
\<close>

definition subscribe :: "radio \<Rightarrow> pystr \<Rightarrow> nat \<Rightarrow> worker \<Rightarrow> pystr option \<times> worker" where
  "subscribe r addr c w =
     (let w1 = w\<lparr>calls := calls w @ [Start_notify c]\<rparr>;
          failed = Some (lit ''Couldn'' @ [0x27]
                         @ lit ''t subscribe to NUS TX. Wrong device, or firmware not running NUS.'')
      in case start_notify r of
           Raises e \<Rightarrow> (failed, w1)
         | Raises_TypeError e \<Rightarrow> (failed, w1)
         | Returns u \<Rightarrow>
             (None, w1\<lparr>client := Some c,
                       connected_address := Some addr,
                       events := events w1 @ [Status (lit ''Connected to '' @ addr), Connected True]\<rparr>))"

text \<open>
  The beginning of the \<^verbatim>\<open>try\<close> block behind the first \<^verbatim>\<open>_disconnect_silent\<close>: the
  client object is made, the callback is set if the library has the method, and
  \<^verbatim>\<open>connect\<close> is called.
\<close>

definition new_client :: "radio \<Rightarrow> worker \<Rightarrow> worker" where
  "new_client r w0 =
     (let c = clients_made w0;
          w1 = w0\<lparr>clients_made := c + 1\<rparr>;
          w2 = (if has_set_disconnected_callback r
                then w1\<lparr>calls := calls w1 @ [Set_disconnected_callback c]\<rparr> else w1)
      in w2\<lparr>calls := calls w2 @ [Connect c]\<rparr>)"

text \<open>
  What follows a \<^verbatim>\<open>connect\<close> that was accepted: the check for the UART service, when
  there is a service collection that can be asked, and the subscription. \<open>Some e\<close> is
  the exception that reaches \<^verbatim>\<open>except Exception as e\<close>.
\<close>

definition check_and_subscribe ::
  "radio \<Rightarrow> pystr \<Rightarrow> nat \<Rightarrow> worker \<Rightarrow> pystr option \<times> worker" where
  "check_and_subscribe r addr c w3 =
     (case fetch_services r c w3 of
        (Inl e, w4) \<Rightarrow> (Some e, w4)
      | (Inr None, w4) \<Rightarrow> subscribe r addr c w4
      | (Inr (Some sv), w4) \<Rightarrow>
          if has_get_service sv
          then (let w5 = w4\<lparr>calls := calls w4 @ [Get_service c]\<rparr>
                in if \<not> nus_service sv
                   then (Some (lit ''Device missing NUS service '' @ NUS_SERVICE_UUID), w5)
                   else subscribe r addr c w5)
          else subscribe r addr c w4)"

text \<open>The \<^verbatim>\<open>try\<close> block of \<^verbatim>\<open>_connect_and_post\<close> behind the first \<^verbatim>\<open>_disconnect_silent\<close>.\<close>

definition try_connect :: "radio \<Rightarrow> pystr \<Rightarrow> worker \<Rightarrow> pystr option \<times> worker" where
  "try_connect r addr w0 =
     (let w3 = new_client r w0
      in case connect_result r of
           Raises e \<Rightarrow> (Some e, w3)
         | Raises_TypeError e \<Rightarrow> (Some e, w3)
         | Returns ok \<Rightarrow>
             if \<not> ok \<and> \<not> is_connected r then (Some (lit ''connect() returned false''), w3)
             else check_and_subscribe r addr (clients_made w0) w3)"

text \<open>\<^verbatim>\<open>_connect_and_post\<close>.\<close>

definition connect_and_post :: "radio \<Rightarrow> pystr \<Rightarrow> worker \<Rightarrow> worker" where
  "connect_and_post r addr w =
     (let w0 = disconnect_silent (old_stop_notify r) (old_disconnect r) w
      in case try_connect r addr w0 of
           (None, w1) \<Rightarrow> w1
         | (Some e, w1) \<Rightarrow>
             (let w2 = w1\<lparr>events := events w1 @ [Error (lit ''Connect failed: '' @ e)]\<rparr>;
                  w3 = disconnect_silent (cleanup_stop_notify r) (cleanup_disconnect r) w2
              in w3\<lparr>events := events w3 @ [Connected False]\<rparr>))"

text \<open>\<^verbatim>\<open>_disconnect_and_post\<close>.\<close>

definition disconnect_and_post :: "unit outcome \<Rightarrow> unit outcome \<Rightarrow> worker \<Rightarrow> worker" where
  "disconnect_and_post stop disc w =
     (let w1 = disconnect_silent stop disc w
      in w1\<lparr>events := events w1 @ [Status (lit ''Disconnected''), Connected False]\<rparr>)"

text \<open>The two operations of \<^verbatim>\<open>_disconnect_silent\<close>, which are the only ones that end a link.\<close>

fun is_teardown :: "radio_call \<Rightarrow> bool" where
  "is_teardown (Stop_notify c) \<longleftrightarrow> True"
| "is_teardown (Disconnect c) \<longleftrightarrow> True"
| "is_teardown (Set_disconnected_callback c) \<longleftrightarrow> False"
| "is_teardown (Connect c) \<longleftrightarrow> False"
| "is_teardown (Get_services c) \<longleftrightarrow> False"
| "is_teardown (Get_service c) \<longleftrightarrow> False"
| "is_teardown (Start_notify c) \<longleftrightarrow> False"

subsection \<open>Concrete inputs\<close>

text \<open>Byte chunks as the radio may deliver them; \<open>CHR 0xC2, CHR 0xA0\<close> is a no-break space.\<close>

definition rx_ct1 :: bytes where "rx_ct1 = ''CT_A:1\<newline>''"
definition rx_ct2 :: bytes where "rx_ct2 = ''CT_A:2\<newline>''"
definition rx_nbsp_head :: bytes where "rx_nbsp_head = ''CT_A'' @ [CHR 0xC2]"
definition rx_nbsp_tail :: bytes where "rx_nbsp_tail = [CHR 0xA0] @ ''1\<newline>''"
definition rx_first :: bytes where "rx_first = ''CT_A:1.0\<newline>HALL1_A:2.0\<newline>HALL2''"
definition rx_second :: bytes where "rx_second = ''_A:3.0\<newline>''"

definition rx_noisy :: bytes where
  "rx_noisy = ''CT_A:1.0\<newline>'' @ [CHR 0xFF] @ ''xx CT_A:1.2.3\<newline>HALL1_A:2.0\<newline>''"
definition rx_nosep :: bytes where "rx_nosep = ''CT_A1.5\<newline>''"
definition line_token :: pystr where "line_token = lit ''  x CT_A = -1.25 V'' @ [0x0D]"

definition rx_euro :: bytes where "rx_euro = [CHR 0xE2, CHR 0x82, CHR 0xAC]"
definition rx_euro_cut :: bytes where "rx_euro_cut = [CHR 0xE2, CHR 0x82]"
definition rx_overlong :: bytes where "rx_overlong = [CHR 0xE0, CHR 0x80, CHR 0x41]"
definition line_nosep :: pystr where "line_nosep = lit ''CT_A1.5''"

definition found_tie :: "FoundDevice list" where
  "found_tie =
     [\<lparr>name = lit ''Alpha'', address = lit ''A1'', rssi = Some (- 40)\<rparr>,
      \<lparr>name = lit ''Beta'', address = lit ''B2'', rssi = Some (- 40)\<rparr>]"
definition found_zero :: "FoundDevice list" where
  "found_zero =
     [\<lparr>name = lit ''Alpha'', address = lit ''A1'', rssi = Some 0\<rparr>,
      \<lparr>name = lit ''Beta'', address = lit ''B2'', rssi = Some (- 40)\<rparr>]"
definition found_far :: "FoundDevice list" where
  "found_far =
     [\<lparr>name = lit ''Alpha'', address = lit ''A1'', rssi = None\<rparr>,
      \<lparr>name = lit ''Beta'', address = lit ''B2'', rssi = Some (- 1000)\<rparr>]"
definition found_below :: "FoundDevice list" where
  "found_below =
     [\<lparr>name = lit ''Alpha'', address = lit ''A1'', rssi = Some 0\<rparr>,
      \<lparr>name = lit ''Beta'', address = lit ''B2'', rssi = Some (- 1000)\<rparr>]"
definition found_mixed :: "FoundDevice list" where
  "found_mixed =
     [\<lparr>name = lit ''Alpha'', address = lit ''A1'', rssi = Some 0\<rparr>,
      \<lparr>name = lit ''Beta'', address = lit ''B2'', rssi = Some (- 1000)\<rparr>,
      \<lparr>name = lit ''Gamma'', address = lit ''C3'', rssi = Some (- 40)\<rparr>]"
definition found_example :: "FoundDevice list" where
  "found_example =
     [\<lparr>name = lit ''Alpha'', address = lit ''A1'', rssi = Some (- 40)\<rparr>,
      \<lparr>name = lit ''<unknown>'', address = lit ''C3'', rssi = Some (- 30)\<rparr>,
      \<lparr>name = lit ''Beta'', address = lit ''B2'', rssi = Some (- 60)\<rparr>]"

text \<open>
  An application that is logging since time 100, with a pending clamp reading of 1.5 and
  a clamp factor of 2; and one that is not logging.
\<close>

definition app_logging :: app where
  "app_logging =
     \<lparr>parser_buffer = [], data_buffer = [], state_changes = [],
      current_state = lit ''Off'', current_state_var = lit ''Off'',
      logging_start_time = Some 100, is_logging = True, csv_file = None,
      sample_interval = 1 / 10, last_sample_time = 0,
      pending_data = no_reading(Ct_clamp \<mapsto> 3 / 2),
      calibration_factors = (\<lambda>key. 1)(Ct_clamp := 2),
      log_text = [], export_btn_enabled = False\<rparr>"

definition app_idle :: app where
  "app_idle =
     \<lparr>parser_buffer = [], data_buffer = [], state_changes = [],
      current_state = lit ''Off'', current_state_var = lit ''Off'',
      logging_start_time = None, is_logging = False, csv_file = None,
      sample_interval = 1 / 10, last_sample_time = 0,
      pending_data = no_reading,
      calibration_factors = (\<lambda>key. 1),
      log_text = [], export_btn_enabled = False\<rparr>"

definition rx_hall1 :: bytes where "rx_hall1 = ''HALL1_A:2\<newline>''"

text \<open>
  A device that accepts the connection and has a service collection, but not the UART
  service; and a worker that holds no client.
\<close>

definition radio_no_nus :: radio where
  "radio_no_nus =
     \<lparr>old_stop_notify = Returns (), old_disconnect = Returns (),
      has_set_disconnected_callback = True,
      connect_result = Returns True, is_connected = True,
      services_attr = Some \<lparr>has_get_service = True, nus_service = False\<rparr>,
      get_services_callable = True,
      get_services_awaited = Returns None, get_services_called = Returns None,
      start_notify = Returns (),
      cleanup_stop_notify = Returns (), cleanup_disconnect = Returns ()\<rparr>"

definition worker_idle :: worker where
  "worker_idle =
     \<lparr>client = None, connected_address = None, events = [], calls = [], clients_made = 0\<rparr>"


section \<open>Properties\<close>

subsection \<open>Splitting into lines\<close>

lemma split_nl_nonempty: "split_nl s \<noteq> []"
  by (induction s) (auto split: list.splits)

lemma split_nl_append:
  "split_nl (a @ b) = butlast (split_nl a) @ split_nl (last (split_nl a) @ b)"
proof (induction a)
  case Nil
  show ?case by simp
next
  case (Cons c cs)
  obtain l ls where sp: "split_nl cs = l # ls"
    using split_nl_nonempty [of cs] by (cases "split_nl cs") auto
  show ?case
  proof (cases "c = 0x0A")
    case True
    then show ?thesis using Cons sp by simp
  next
    case False
    show ?thesis
    proof (cases ls)
      case Nil
      then show ?thesis using Cons sp False by simp
    next
      case (Cons l' ls')
      then show ?thesis using Cons.IH sp False by simp
    qed
  qed
qed

lemma last_split_nl_append:
  "last (split_nl (a @ b)) = last (split_nl (last (split_nl a) @ b))"
  by (subst split_nl_append) (simp add: split_nl_nonempty)

lemma butlast_split_nl_append:
  "butlast (split_nl (a @ b))
     = butlast (split_nl a) @ butlast (split_nl (last (split_nl a) @ b))"
  by (subst split_nl_append) (simp add: split_nl_nonempty butlast_append)

lemma last_item_nonempty: "xs \<noteq> [] \<Longrightarrow> last_item xs = Inr (last xs)"
  by (cases xs rule: rev_cases) (simp_all add: last_item_def)

lemma parse_eq:
  "parse buffer data =
     Inr (last (split_nl (buffer @ decode data)),
          foldl process_line no_reading (butlast (split_nl (buffer @ decode data))))"
  by (simp add: parse_def Let_def last_item_nonempty split_nl_nonempty)

subsection \<open>Merging\<close>

lemma merge_pending_apply:
  "merge_pending pending parsed key =
     (case parsed key of None \<Rightarrow> pending key | Some v \<Rightarrow> Some v)"
  by (cases key) (simp_all add: merge_pending_def split: option.splits)

lemma merge_pending_no_reading [simp]: "merge_pending a no_reading = a"
  by (simp add: fun_eq_iff merge_pending_apply no_reading_def)

lemma merge_pending_no_reading_left [simp]: "merge_pending no_reading a = a"
  by (simp add: fun_eq_iff merge_pending_apply no_reading_def split: option.splits)

lemma merge_pending_assoc:
  "merge_pending (merge_pending a b) c = merge_pending a (merge_pending b c)"
  by (simp add: fun_eq_iff merge_pending_apply split: option.splits)

lemma apply_pattern_merge:
  "apply_pattern line (merge_pending a b) kp = merge_pending a (apply_pattern line b kp)"
  by (simp add: apply_pattern_def fun_eq_iff merge_pending_apply
           split: option.splits sum.splits)

lemma foldl_apply_pattern_merge:
  "foldl (apply_pattern line) (merge_pending a b) ps
     = merge_pending a (foldl (apply_pattern line) b ps)"
  by (induction ps arbitrary: b) (simp_all add: apply_pattern_merge)

lemma process_line_merge:
  "process_line (merge_pending a b) line = merge_pending a (process_line b line)"
  by (simp add: process_line_def Let_def foldl_apply_pattern_merge)

lemma foldl_process_line_merge:
  "foldl process_line (merge_pending a b) ls = merge_pending a (foldl process_line b ls)"
  by (induction ls arbitrary: b) (simp_all add: process_line_merge)

lemma foldl_process_line_from:
  "foldl process_line a ls = merge_pending a (foldl process_line no_reading ls)"
  using foldl_process_line_merge [of a no_reading ls] by simp

lemma feed_all_texts:
  "ds \<noteq> [] \<Longrightarrow>
   feed_all buffer pending ds =
     Inr (last (split_nl (buffer @ concat (map decode ds))),
          merge_pending pending
            (foldl process_line no_reading
               (butlast (split_nl (buffer @ concat (map decode ds))))))"
proof (induction ds arbitrary: buffer pending rule: list_nonempty_induct)
  case (single d)
  show ?case by (simp add: parse_eq)
next
  case (cons d ds)
  let ?b1 = "last (split_nl (buffer @ decode d))"
  let ?r1 = "foldl process_line no_reading (butlast (split_nl (buffer @ decode d)))"
  have "feed_all buffer pending (d # ds) = feed_all ?b1 (merge_pending pending ?r1) ds"
    by (simp add: parse_eq)
  also have "\<dots> = Inr (last (split_nl (?b1 @ concat (map decode ds))),
      merge_pending (merge_pending pending ?r1)
        (foldl process_line no_reading (butlast (split_nl (?b1 @ concat (map decode ds))))))"
    by (rule cons.IH)
  also have "last (split_nl (?b1 @ concat (map decode ds)))
      = last (split_nl (buffer @ concat (map decode (d # ds))))"
    using last_split_nl_append [of "buffer @ decode d" "concat (map decode ds)"] by simp
  also have "merge_pending (merge_pending pending ?r1)
        (foldl process_line no_reading (butlast (split_nl (?b1 @ concat (map decode ds)))))
      = merge_pending pending (foldl process_line no_reading
           (butlast (split_nl (buffer @ concat (map decode (d # ds))))))"
  proof -
    have "butlast (split_nl (buffer @ concat (map decode (d # ds))))
        = butlast (split_nl (buffer @ decode d))
            @ butlast (split_nl (?b1 @ concat (map decode ds)))"
      using butlast_split_nl_append [of "buffer @ decode d" "concat (map decode ds)"] by simp
    then show ?thesis
      by (simp add: merge_pending_assoc foldl_process_line_from [of ?r1])
  qed
  finally show ?case .
qed

subsection \<open>Evaluating the parser on concrete input\<close>

lemmas parser_eval =
  parse_eq decode_def lit_def is_cont_def second_ok_def isspace_def decimal_def is_digit_def
  digits_value_def py_float_def strip_def PATTERNS_def is_sep_def is_numeric_def match_here_def
  apply_pattern_def process_line_def Let_def

lemma ascii_decode:
  "\<forall>c \<in> set a. (of_char c :: nat) < 0x80 \<Longrightarrow> utf8_replace (map of_char a @ bs) = map of_char a @ utf8_replace bs"
  by (induction a) simp_all

lemma decode_ascii_append:
  "\<forall>c \<in> set a. (of_char c :: nat) < 0x80 \<Longrightarrow> decode (a @ b) = decode a @ decode b"
  using ascii_decode [of a "map of_char b"] ascii_decode [of a "[]"] by (simp add: decode_def)


text \<open>
  C1 as it is stated fails twice. A channel that two lines report is reported twice
  when the lines arrive in two calls and once (the later value) when they arrive in
  one. And a split inside a multi-byte character decodes to replacement characters,
  here inside the separator and not inside the number.
\<close>

theorem chunked_pairs_counterexample:
  "set (feed_items [] [rx_ct1, rx_ct2]) \<noteq> set (feed_items [] [rx_ct1 @ rx_ct2])
   \<and> set (feed_items [] [rx_nbsp_head, rx_nbsp_tail])
       \<noteq> set (feed_items [] [rx_nbsp_head @ rx_nbsp_tail])"
proof -
  have a1: "parse [] rx_ct1 = Inr ([], no_reading(Ct_clamp \<mapsto> 1))"
    by (simp add: rx_ct1_def parser_eval)
  have a2: "parse [] rx_ct2 = Inr ([], no_reading(Ct_clamp \<mapsto> 2))"
    by (simp add: rx_ct2_def parser_eval)
  have a3: "parse [] (rx_ct1 @ rx_ct2) = Inr ([], no_reading(Ct_clamp \<mapsto> 2))"
    by (simp add: rx_ct1_def rx_ct2_def parser_eval)
  have b1: "parse [] rx_nbsp_head = Inr (lit ''CT_A'' @ [0xFFFD], no_reading)"
    by (simp add: rx_nbsp_head_def parser_eval)
  have b2: "parse (lit ''CT_A'' @ [0xFFFD]) rx_nbsp_tail = Inr ([], no_reading)"
    by (simp add: rx_nbsp_tail_def parser_eval nd_zeros_def)
  have b3: "parse [] (rx_nbsp_head @ rx_nbsp_tail) = Inr ([], no_reading(Ct_clamp \<mapsto> 1))"
    by (simp add: rx_nbsp_head_def rx_nbsp_tail_def parser_eval)
  have s1: "set (feed_items [] [rx_ct1, rx_ct2]) = {(Ct_clamp, 1), (Ct_clamp, 2)}"
    by (simp add: a1 a2 items_def no_reading_def)
  have s2: "set (feed_items [] [rx_ct1 @ rx_ct2]) = {(Ct_clamp, 2)}"
    by (simp add: a3 items_def no_reading_def)
  have s3: "set (feed_items [] [rx_nbsp_head, rx_nbsp_tail]) = {}"
    by (simp add: b1 b2 items_def no_reading_def)
  have s4: "set (feed_items [] [rx_nbsp_head @ rx_nbsp_tail]) = {(Ct_clamp, 1)}"
    by (simp add: b3 items_def no_reading_def)
  show ?thesis unfolding s1 s2 s3 s4 by auto
qed

text \<open>
  C1, amended: when every chunk decodes on its own to its part of the text, feeding
  the chunks one call at a time and merging each call's values into the pending values
  (a later value of a channel replaces the earlier one) gives the pending values and
  the buffer of the single call on the whole sequence. No condition on where the
  chunks cut lines, tags or numbers is needed.
\<close>

theorem parse_chunks_merge:
  assumes "chunks \<noteq> []"
    and "decode (concat chunks) = concat (map decode chunks)"
  shows "feed_all buffer pending chunks =
           (case parse buffer (concat chunks) of
              Inl e \<Rightarrow> Inl e
            | Inr (b, r) \<Rightarrow> Inr (b, merge_pending pending r))"
  using assms by (simp add: feed_all_texts parse_eq)

theorem parse_chunks_merge_witness:
  "[rx_first, rx_second] \<noteq> []
   \<and> decode (concat [rx_first, rx_second]) = concat (map decode [rx_first, rx_second])
   \<and> feed_all [] no_reading [rx_first, rx_second]
       = Inr ([], no_reading(Ct_clamp \<mapsto> 1, Hall1 \<mapsto> 2, Hall2 \<mapsto> 3))"
proof -
  have ne: "[rx_first, rx_second] \<noteq> []" by simp
  have dec: "decode (concat [rx_first, rx_second]) = concat (map decode [rx_first, rx_second])"
    by (simp add: rx_first_def rx_second_def decode_def)
  have whole: "parse [] (concat [rx_first, rx_second])
      = Inr ([], no_reading(Ct_clamp \<mapsto> 1, Hall1 \<mapsto> 2, Hall2 \<mapsto> 3))"
    by (simp add: rx_first_def rx_second_def parser_eval)
  have "feed_all [] no_reading [rx_first, rx_second]
      = Inr ([], no_reading(Ct_clamp \<mapsto> 1, Hall1 \<mapsto> 2, Hall2 \<mapsto> 3))"
    unfolding parse_chunks_merge [OF ne dec, of "[]" no_reading] whole by simp
  with ne dec show ?thesis by blast
qed

subsection \<open>Noise\<close>

lemma apply_pattern_noise:
  "(case re_search (snd kp) line of None \<Rightarrow> True | Some g \<Rightarrow> isl (py_float g))
     \<Longrightarrow> apply_pattern line result kp = result"
  by (auto simp: apply_pattern_def split: option.splits sum.splits)

lemma foldl_apply_pattern_noise:
  "list_all (\<lambda>kp. case re_search (snd kp) line of None \<Rightarrow> True | Some g \<Rightarrow> isl (py_float g)) ps
     \<Longrightarrow> foldl (apply_pattern line) result ps = result"
  by (induction ps) (simp_all add: apply_pattern_noise)

lemma noise_process_line: "noise line \<Longrightarrow> process_line result line = result"
  by (simp add: noise_def process_line_def Let_def foldl_apply_pattern_noise)

lemma decode_invalid_lead:
  "0x80 \<le> (of_char c :: nat) \<Longrightarrow> (of_char c :: nat) < 0xC2 \<or> 0xF4 < (of_char c :: nat)
     \<Longrightarrow> decode (c # cs) = 0xFFFD # decode cs"
  by (auto simp: decode_def)

subsection \<open>Decoding with replacement\<close>

lemma div_4096: "(cp::nat) div 4096 = cp div 64 div 64"
  by (simp add: div_mult2_eq)

lemma div_262144: "(cp::nat) div 262144 = cp div 64 div 64 div 64"
  by (simp add: div_mult2_eq)

text \<open>The bytes of the encodings of two, three and four bytes.\<close>

lemma enc2_bytes:
  assumes "0x80 \<le> cp" "cp < 0x800"
  obtains a r where "utf8_encode cp = [0xC0 + a, 0x80 + r]" "2 \<le> a" "a < 32" "r < 64"
    "a * 64 + r = cp"
proof -
  have "cp div 64 < 32" "2 \<le> cp div 64" using assms by linarith+
  moreover have "utf8_encode cp = [0xC0 + cp div 64, 0x80 + cp mod 64]"
    using assms by (simp add: utf8_encode_def)
  ultimately show ?thesis using that [of "cp div 64" "cp mod 64"] by simp
qed

lemma enc3_bytes:
  assumes "0x800 \<le> cp" "cp < 0x10000" "scalar cp"
  obtains a b r where "utf8_encode cp = [0xE0 + a, 0x80 + b, 0x80 + r]" "a < 16" "b < 64"
    "r < 64" "second_ok (0xE0 + a) (0x80 + b)" "a * 4096 + b * 64 + r = cp"
proof -
  define q where "q = cp div 64"
  define a where "a = q div 64"
  define b where "b = q mod 64"
  define r where "r = cp mod 64"
  have cp: "cp = q * 64 + r" and r: "r < 64" by (simp_all add: q_def r_def)
  have q: "q = a * 64 + b" and b: "b < 64" by (simp_all add: a_def b_def)
  have a: "a < 16" using assms(2) cp q by linarith
  have lo: "a = 0 \<Longrightarrow> 32 \<le> b" using assms(1) cp q r by linarith
  have hi: "a = 13 \<Longrightarrow> b < 32" using assms(3) cp q r b unfolding scalar_def by linarith
  have s: "second_ok (0xE0 + a) (0x80 + b)"
    using lo hi b a unfolding second_ok_def by auto
  have e: "utf8_encode cp = [0xE0 + a, 0x80 + b, 0x80 + r]"
    using assms(1,2) by (simp add: utf8_encode_def div_4096 a_def b_def q_def r_def)
  have v: "a * 4096 + b * 64 + r = cp" using cp q by simp
  show ?thesis using that [OF e a b r s v] .
qed

lemma enc4_bytes:
  assumes "0x10000 \<le> cp" "cp < 0x110000"
  obtains a b c r where "utf8_encode cp = [0xF0 + a, 0x80 + b, 0x80 + c, 0x80 + r]" "a < 5"
    "b < 64" "c < 64" "r < 64" "second_ok (0xF0 + a) (0x80 + b)"
    "a * 262144 + b * 4096 + c * 64 + r = cp"
proof -
  define q where "q = cp div 64"
  define p where "p = q div 64"
  define a where "a = p div 64"
  define b where "b = p mod 64"
  define c where "c = q mod 64"
  define r where "r = cp mod 64"
  have cp: "cp = q * 64 + r" and r: "r < 64" by (simp_all add: q_def r_def)
  have q: "q = p * 64 + c" and c: "c < 64" by (simp_all add: p_def c_def)
  have p: "p = a * 64 + b" and b: "b < 64" by (simp_all add: a_def b_def)
  have a: "a < 5" using assms(2) cp q p by linarith
  have lo: "a = 0 \<Longrightarrow> 16 \<le> b" using assms(1) cp q p r c by linarith
  have hi: "a = 4 \<Longrightarrow> b < 16" using assms(2) cp q p by linarith
  have s: "second_ok (0xF0 + a) (0x80 + b)"
    using lo hi b a unfolding second_ok_def by auto
  have e: "utf8_encode cp = [0xF0 + a, 0x80 + b, 0x80 + c, 0x80 + r]"
    using assms(1)
    by (simp add: utf8_encode_def div_4096 div_262144 a_def b_def c_def p_def q_def r_def)
  have v: "a * 262144 + b * 4096 + c * 64 + r = cp" using cp q p by simp
  show ?thesis using that [OF e a b c r s v] .
qed

text \<open>A well-formed sequence decodes to its character.\<close>

lemma utf8_replace_encode:
  assumes "scalar cp"
  shows "utf8_replace (utf8_encode cp @ bs) = cp # utf8_replace bs"
proof -
  consider "cp < 0x80" | "0x80 \<le> cp" "cp < 0x800" | "0x800 \<le> cp" "cp < 0x10000"
    | "0x10000 \<le> cp" "cp < 0x110000" using assms unfolding scalar_def by linarith
  then show ?thesis
  proof cases
    case 1
    then show ?thesis by (simp add: utf8_encode_def)
  next
    case 2
    then obtain a r where "utf8_encode cp = [0xC0 + a, 0x80 + r]" "2 \<le> a" "a < 32" "r < 64"
      "a * 64 + r = cp" by (rule enc2_bytes)
    then show ?thesis by (simp add: is_cont_def)
  next
    case 3
    then obtain a b r where "utf8_encode cp = [0xE0 + a, 0x80 + b, 0x80 + r]" "a < 16" "b < 64"
      "r < 64" "second_ok (0xE0 + a) (0x80 + b)" "a * 4096 + b * 64 + r = cp"
      using assms by (rule enc3_bytes)
    then show ?thesis by (simp add: is_cont_def)
  next
    case 4
    then obtain a b c r where "utf8_encode cp = [0xF0 + a, 0x80 + b, 0x80 + c, 0x80 + r]"
      "a < 5" "b < 64" "c < 64" "r < 64" "second_ok (0xF0 + a) (0x80 + b)"
      "a * 262144 + b * 4096 + c * 64 + r = cp" by (rule enc4_bytes)
    then show ?thesis by (simp add: is_cont_def)
  qed
qed

lemma not_cont_second: "\<not> is_cont b \<Longrightarrow> \<not> second_ok b0 b"
  by (auto simp: second_ok_def is_cont_def split: if_splits)

lemma second_ok_cont: "second_ok b0 b1 \<Longrightarrow> is_cont b1"
  by (auto simp: second_ok_def is_cont_def split: if_splits)

text \<open>
  A well-formed sequence cut short, by the end of the data or by a byte that is not a
  continuation byte, is replaced by one U+FFFD, and decoding goes on at that byte.
\<close>

lemma utf8_replace_truncated:
  assumes "scalar cp" "0 < n" "n < length (utf8_encode cp)"
    and "rest = [] \<or> \<not> is_cont (hd rest)"
  shows "utf8_replace (take n (utf8_encode cp) @ rest) = 0xFFFD # utf8_replace rest"
proof -
  have r: "rest = [] \<or> (\<exists>x xs. rest = x # xs \<and> \<not> is_cont x \<and> (\<forall>b0. \<not> second_ok b0 x))"
    using assms(4) not_cont_second by (cases rest) auto
  consider "cp < 0x80" | "0x80 \<le> cp" "cp < 0x800" | "0x800 \<le> cp" "cp < 0x10000"
    | "0x10000 \<le> cp" "cp < 0x110000" using assms(1) unfolding scalar_def by linarith
  then show ?thesis
  proof cases
    case 1
    with assms(2,3) show ?thesis by (simp add: utf8_encode_def)
  next
    case 2
    then obtain a r where e: "utf8_encode cp = [0xC0 + a, 0x80 + r]" "2 \<le> a" "a < 32" "r < 64"
      "a * 64 + r = cp" by (rule enc2_bytes)
    from assms(2,3) have "n = 1" by (simp add: e)
    with e r show ?thesis by auto
  next
    case 3
    then obtain a b r' where e: "utf8_encode cp = [0xE0 + a, 0x80 + b, 0x80 + r']" "a < 16"
      "b < 64" "r' < 64" "second_ok (0xE0 + a) (0x80 + b)" "a * 4096 + b * 64 + r' = cp"
      using assms(1) by (rule enc3_bytes)
    from assms(2,3) have "n = 1 \<or> n = 2" by (auto simp: e)
    with e r show ?thesis by auto
  next
    case 4
    then obtain a b c r' where e: "utf8_encode cp = [0xF0 + a, 0x80 + b, 0x80 + c, 0x80 + r']"
      "a < 5" "b < 64" "c < 64" "r' < 64" "second_ok (0xF0 + a) (0x80 + b)"
      "a * 262144 + b * 4096 + c * 64 + r' = cp" by (rule enc4_bytes)
    from assms(2,3) have "n = 1 \<or> n = 2 \<or> n = 3" by (auto simp: e)
    with e r show ?thesis by (auto simp: is_cont_def numeral_3_eq_3)
  qed
qed

text \<open>What the decoder accepts is the encoding of the scalar value it returns.\<close>

lemma dec1: "b0 < 0x80 \<Longrightarrow> scalar b0 \<and> utf8_encode b0 = [b0]"
  by (simp add: scalar_def utf8_encode_def)

lemma dec2:
  assumes "0xC2 \<le> b0" "b0 < 0xE0" "is_cont b1"
  shows "scalar ((b0 - 0xC0) * 64 + (b1 - 0x80))
         \<and> utf8_encode ((b0 - 0xC0) * 64 + (b1 - 0x80)) = [b0, b1]"
proof -
  define a where "a = b0 - 0xC0"
  define b where "b = b1 - 0x80"
  have a: "2 \<le> a" "a < 32" "b0 = 0xC0 + a" using assms by (simp_all add: a_def)
  have b: "b < 64" "b1 = 0x80 + b" using assms by (auto simp: b_def is_cont_def)
  have "(a * 64 + b) div 64 = a" "(a * 64 + b) mod 64 = b" using b by simp_all
  moreover have "0x80 \<le> a * 64 + b" "a * 64 + b < 0x800" using a b by linarith+
  ultimately show ?thesis
    unfolding a_def [symmetric] b_def [symmetric] using a b
    by (simp add: utf8_encode_def scalar_def)
qed

lemma dec3:
  assumes "0xE0 \<le> b0" "b0 < 0xF0" "second_ok b0 b1" "is_cont b2"
  shows "scalar ((b0 - 0xE0) * 4096 + (b1 - 0x80) * 64 + (b2 - 0x80))
         \<and> utf8_encode ((b0 - 0xE0) * 4096 + (b1 - 0x80) * 64 + (b2 - 0x80)) = [b0, b1, b2]"
proof -
  define a where "a = b0 - 0xE0"
  define b where "b = b1 - 0x80"
  define c where "c = b2 - 0x80"
  define q0 where "q0 = a * 64 + b"
  define cp where "cp = q0 * 64 + c"
  have a: "a < 16" "b0 = 0xE0 + a" using assms by (simp_all add: a_def)
  have b: "b < 64" "b1 = 0x80 + b" using second_ok_cont [OF assms(3)]
    by (auto simp: b_def is_cont_def)
  have c: "c < 64" "b2 = 0x80 + c" using assms by (auto simp: c_def is_cont_def)
  have lo: "a = 0 \<Longrightarrow> 32 \<le> b" using assms(3) a b by (simp add: second_ok_def)
  have hi: "a = 13 \<Longrightarrow> b < 32" using assms(3) a b by (simp add: second_ok_def)
  have q: "cp div 64 = q0" "cp mod 64 = c" using c by (simp_all add: cp_def)
  have p: "q0 div 64 = a" "q0 mod 64 = b" using b by (simp_all add: q0_def)
  have "32 \<le> q0" using lo unfolding q0_def by (cases "a = 0") simp_all
  then have r1: "0x800 \<le> cp" unfolding cp_def by linarith
  have "q0 < 1024" using a b unfolding q0_def by linarith
  then have r2: "cp < 0x10000" using c unfolding cp_def by linarith
  have sc: "scalar cp"
  proof -
    consider "a < 13" | "a = 13" | "13 < a" by linarith
    then show ?thesis
    proof cases
      case 1
      then have "q0 < 832" using b unfolding q0_def by linarith
      then have "cp < 0xD800" using c unfolding cp_def by linarith
      then show ?thesis by (simp add: scalar_def)
    next
      case 2
      then have "q0 < 864" using hi unfolding q0_def by simp
      then have "cp < 0xD800" using c unfolding cp_def by linarith
      then show ?thesis by (simp add: scalar_def)
    next
      case 3
      then have "896 \<le> q0" unfolding q0_def by linarith
      then have "0xE000 \<le> cp" unfolding cp_def by linarith
      then show ?thesis using r2 by (simp add: scalar_def)
    qed
  qed
  have e: "utf8_encode cp = [b0, b1, b2]"
    using r1 r2 a b c by (simp add: utf8_encode_def div_4096 p q)
  have "(b0 - 0xE0) * 4096 + (b1 - 0x80) * 64 + (b2 - 0x80) = cp"
    by (simp add: cp_def q0_def a_def b_def c_def)
  then show ?thesis using sc e by simp
qed

lemma dec4:
  assumes "0xF0 \<le> b0" "b0 \<le> 0xF4" "second_ok b0 b1" "is_cont b2" "is_cont b3"
  shows "scalar ((b0 - 0xF0) * 262144 + (b1 - 0x80) * 4096 + (b2 - 0x80) * 64 + (b3 - 0x80))
         \<and> utf8_encode ((b0 - 0xF0) * 262144 + (b1 - 0x80) * 4096 + (b2 - 0x80) * 64 + (b3 - 0x80))
             = [b0, b1, b2, b3]"
proof -
  define a where "a = b0 - 0xF0"
  define b where "b = b1 - 0x80"
  define c where "c = b2 - 0x80"
  define d where "d = b3 - 0x80"
  define p0 where "p0 = a * 64 + b"
  define q0 where "q0 = p0 * 64 + c"
  define cp where "cp = q0 * 64 + d"
  have a: "a < 5" "b0 = 0xF0 + a" using assms by (simp_all add: a_def)
  have b: "b < 64" "b1 = 0x80 + b" using second_ok_cont [OF assms(3)]
    by (auto simp: b_def is_cont_def)
  have c: "c < 64" "b2 = 0x80 + c" using assms by (auto simp: c_def is_cont_def)
  have d: "d < 64" "b3 = 0x80 + d" using assms by (auto simp: d_def is_cont_def)
  have lo: "a = 0 \<Longrightarrow> 16 \<le> b" using assms(3) a b by (simp add: second_ok_def)
  have hi: "a = 4 \<Longrightarrow> b < 16" using assms(3) a b by (simp add: second_ok_def)
  have q: "cp div 64 = q0" "cp mod 64 = d" using d by (simp_all add: cp_def)
  have p: "q0 div 64 = p0" "q0 mod 64 = c" using c by (simp_all add: q0_def)
  have o: "p0 div 64 = a" "p0 mod 64 = b" using b by (simp_all add: p0_def)
  have "16 \<le> p0" using lo unfolding p0_def by (cases "a = 0") simp_all
  then have "1024 \<le> q0" unfolding q0_def by linarith
  then have r1: "0x10000 \<le> cp" unfolding cp_def by linarith
  have "p0 < 272"
  proof (cases "a = 4")
    case True
    then show ?thesis using hi unfolding p0_def by simp
  next
    case False
    then have "a \<le> 3" using a by simp
    then show ?thesis using b unfolding p0_def by linarith
  qed
  then have "q0 < 17408" using c unfolding q0_def by linarith
  then have r2: "cp < 0x110000" using d unfolding cp_def by linarith
  have sc: "scalar cp" using r1 r2 by (simp add: scalar_def)
  have e: "utf8_encode cp = [b0, b1, b2, b3]"
    using r1 a b c d by (simp add: utf8_encode_def div_4096 div_262144 o p q)
  have "(b0 - 0xF0) * 262144 + (b1 - 0x80) * 4096 + (b2 - 0x80) * 64 + (b3 - 0x80) = cp"
    by (simp add: cp_def q0_def p0_def a_def b_def c_def d_def)
  then show ?thesis using sc e by simp
qed

text \<open>So input that begins with no well-formed sequence cannot take a decoding branch.\<close>

lemma ill_1:
  assumes "\<forall>cp. scalar cp \<longrightarrow> take (length (utf8_encode cp)) (b0 # r0) \<noteq> utf8_encode cp"
  shows "0x80 \<le> b0"
proof (rule ccontr)
  assume "\<not> 0x80 \<le> b0"
  then have "scalar b0 \<and> utf8_encode b0 = [b0]" by (simp add: dec1)
  with assms [rule_format, of b0] show False by simp
qed

lemma ill_2:
  assumes "\<forall>cp. scalar cp \<longrightarrow> take (length (utf8_encode cp)) (b0 # b1 # r1) \<noteq> utf8_encode cp"
    and "0xC2 \<le> b0" "b0 < 0xE0"
  shows "\<not> is_cont b1"
proof
  assume "is_cont b1"
  from dec2 [OF assms(2,3) this] assms(1) [rule_format, of "(b0 - 0xC0) * 64 + (b1 - 0x80)"]
  show False by simp
qed

lemma ill_3:
  assumes "\<forall>cp. scalar cp \<longrightarrow> take (length (utf8_encode cp)) (b0 # b1 # b2 # r2) \<noteq> utf8_encode cp"
    and "0xE0 \<le> b0" "b0 < 0xF0" "second_ok b0 b1"
  shows "\<not> is_cont b2"
proof
  assume "is_cont b2"
  from dec3 [OF assms(2,3,4) this]
    assms(1) [rule_format, of "(b0 - 0xE0) * 4096 + (b1 - 0x80) * 64 + (b2 - 0x80)"]
  show False by simp
qed

lemma ill_4:
  assumes "\<forall>cp. scalar cp \<longrightarrow>
      take (length (utf8_encode cp)) (b0 # b1 # b2 # b3 # r3) \<noteq> utf8_encode cp"
    and "0xF0 \<le> b0" "b0 \<le> 0xF4" "second_ok b0 b1" "is_cont b2"
  shows "\<not> is_cont b3"
proof
  assume "is_cont b3"
  from dec4 [OF assms(2,3,4,5) this]
    assms(1) [rule_format,
      of "(b0 - 0xF0) * 262144 + (b1 - 0x80) * 4096 + (b2 - 0x80) * 64 + (b3 - 0x80)"]
  show False by simp
qed

text \<open>
  Input that begins with no well-formed sequence gives U+FFFD for its first one, two or
  three bytes, and decoding goes on behind them.
\<close>

lemma utf8_replace_ill_formed:
  assumes "bs \<noteq> []"
    and "\<forall>cp. scalar cp \<longrightarrow> take (length (utf8_encode cp)) bs \<noteq> utf8_encode cp"
  shows "\<exists>k. 1 \<le> k \<and> k \<le> 3 \<and> utf8_replace bs = 0xFFFD # utf8_replace (drop k bs)"
proof -
  obtain b0 r0 where bs: "bs = b0 # r0" using assms(1) by (cases bs) auto
  note ill = assms(2) [unfolded bs]
  have hi: "0x80 \<le> b0" using ill by (rule ill_1)
  have k1: ?thesis if "utf8_replace bs = 0xFFFD # utf8_replace r0"
    using that by (intro exI [of _ 1]) (simp add: bs)
  consider "b0 < 0xC2 \<or> 0xF4 < b0" | "0xC2 \<le> b0" "b0 < 0xE0" | "0xE0 \<le> b0" "b0 < 0xF0"
    | "0xF0 \<le> b0" "b0 \<le> 0xF4" by linarith
  then show ?thesis
  proof cases
    case 1
    with hi show ?thesis by (intro k1) (auto simp: bs)
  next
    case 2
    show ?thesis
    proof (cases r0)
      case Nil
      with 2 hi show ?thesis by (intro k1) (simp add: bs)
    next
      case (Cons b1 r1)
      have "\<not> is_cont b1" using ill 2 unfolding Cons by (rule ill_2)
      with 2 hi show ?thesis by (intro k1) (simp add: bs Cons)
    qed
  next
    case 3
    show ?thesis
    proof (cases r0)
      case Nil
      with 3 hi show ?thesis by (intro k1) (simp add: bs)
    next
      case r0: (Cons b1 r1)
      show ?thesis
      proof (cases "second_ok b0 b1")
        case False
        with 3 hi show ?thesis by (intro k1) (simp add: bs r0)
      next
        case True
        have "utf8_replace bs = 0xFFFD # utf8_replace r1"
        proof (cases r1)
          case Nil
          with 3 True show ?thesis by (simp add: bs r0)
        next
          case (Cons b2 r2)
          have "\<not> is_cont b2" using ill 3 True unfolding r0 Cons by (rule ill_3)
          with 3 True show ?thesis by (simp add: bs r0 Cons)
        qed
        then show ?thesis by (intro exI [of _ 2]) (simp add: bs r0)
      qed
    qed
  next
    case 4
    show ?thesis
    proof (cases r0)
      case Nil
      with 4 show ?thesis by (intro k1) (simp add: bs)
    next
      case r0: (Cons b1 r1)
      show ?thesis
      proof (cases "second_ok b0 b1")
        case False
        with 4 show ?thesis by (intro k1) (simp add: bs r0)
      next
        case ok: True
        show ?thesis
        proof (cases r1)
          case Nil
          with 4 ok have "utf8_replace bs = 0xFFFD # utf8_replace r1" by (simp add: bs r0)
          then show ?thesis by (intro exI [of _ 2]) (simp add: bs r0)
        next
          case r1: (Cons b2 r2)
          show ?thesis
          proof (cases "is_cont b2")
            case False
            with 4 ok have "utf8_replace bs = 0xFFFD # utf8_replace r1" by (simp add: bs r0 r1)
            then show ?thesis by (intro exI [of _ 2]) (simp add: bs r0)
          next
            case c2: True
            have "utf8_replace bs = 0xFFFD # utf8_replace r2"
            proof (cases r2)
              case Nil
              with 4 ok c2 show ?thesis by (simp add: bs r0 r1)
            next
              case (Cons b3 r3)
              have "\<not> is_cont b3" using ill 4 ok c2 unfolding r0 r1 Cons by (rule ill_4)
              with 4 ok c2 show ?thesis by (simp add: bs r0 r1 Cons)
            qed
            then show ?thesis by (intro exI [of _ 3]) (simp add: bs r0 r1)
          qed
        qed
      qed
    qed
  qed
qed

text \<open>The same three facts for \<open>decode\<close>, on bytes.\<close>

lemma decode_encode:
  "scalar cp \<Longrightarrow> map of_char enc = utf8_encode cp \<Longrightarrow> decode (enc @ cs) = cp # decode cs"
  using utf8_replace_encode [of cp "map of_char cs"] by (simp add: decode_def)

lemma decode_truncated:
  assumes "scalar cp" "0 < n" "n < length (utf8_encode cp)"
    and "map of_char enc = take n (utf8_encode cp)"
    and "cs = [] \<or> \<not> is_cont (of_char (hd cs))"
  shows "decode (enc @ cs) = 0xFFFD # decode cs"
proof -
  have "map of_char cs = [] \<or> \<not> is_cont (hd (map of_char cs))"
    using assms(5) by (cases cs) auto
  from utf8_replace_truncated [OF assms(1,2,3) this] assms(4)
  show ?thesis by (simp add: decode_def)
qed

lemma decode_ill_formed:
  assumes "ds \<noteq> []"
    and "\<forall>cp. scalar cp \<longrightarrow> take (length (utf8_encode cp)) (map of_char ds) \<noteq> utf8_encode cp"
  shows "\<exists>k. 1 \<le> k \<and> k \<le> 3 \<and> decode ds = 0xFFFD # decode (drop k ds)"
proof -
  have "map of_char ds \<noteq> ([] :: nat list)" using assms(1) by simp
  from utf8_replace_ill_formed [OF this assms(2)]
  show ?thesis by (simp add: decode_def drop_map)
qed

text \<open>
  The bytes E0 80 41 begin with no well-formed sequence: E0 can only begin a sequence of
  three bytes whose second byte is at least A0.
\<close>

lemma overlong_ill_formed:
  "scalar cp \<Longrightarrow> take (length (utf8_encode cp)) [0xE0, 0x80, 0x41] \<noteq> utf8_encode cp"
proof -
  assume sc: "scalar cp"
  consider "cp < 0x80" | "0x80 \<le> cp" "cp < 0x800" | "0x800 \<le> cp" "cp < 0x10000"
    | "0x10000 \<le> cp" "cp < 0x110000" using sc unfolding scalar_def by linarith
  then show ?thesis
  proof cases
    case 1
    then show ?thesis by (simp add: utf8_encode_def)
  next
    case 2
    then obtain a r where "utf8_encode cp = [0xC0 + a, 0x80 + r]" "2 \<le> a" "a < 32" "r < 64"
      "a * 64 + r = cp" by (rule enc2_bytes)
    then show ?thesis by simp
  next
    case 3
    then obtain a b r where "utf8_encode cp = [0xE0 + a, 0x80 + b, 0x80 + r]" "a < 16" "b < 64"
      "r < 64" "second_ok (0xE0 + a) (0x80 + b)" "a * 4096 + b * 64 + r = cp"
      using sc by (rule enc3_bytes)
    then show ?thesis by simp
  next
    case 4
    then obtain a b c r where "utf8_encode cp = [0xF0 + a, 0x80 + b, 0x80 + c, 0x80 + r]"
      "a < 5" "b < 64" "c < 64" "r < 64" "second_ok (0xF0 + a) (0x80 + b)"
      "a * 262144 + b * 4096 + c * 64 + r = cp" by (rule enc4_bytes)
    then show ?thesis by simp
  qed
qed

text \<open>
  C8: \<open>parse\<close> returns for every buffer and every byte input, it never raises. Invalid
  bytes are decoded with replacement: a byte that cannot begin a UTF-8 sequence decodes to
  U+FFFD and decoding goes on behind it; a well-formed sequence decodes to its character; a
  well-formed sequence that is cut short, by the end of the data or by a byte that is not a
  continuation byte, decodes to one U+FFFD and decoding goes on at that byte; and data that
  begins with no well-formed sequence at all decodes to U+FFFD for its first one to three
  bytes followed by the decoding of the rest. A complete line on which every pattern finds
  nothing, or finds a token that \<^verbatim>\<open>float\<close> rejects, leaves no trace: the call returns what
  the other lines of the call give.
\<close>

theorem parse_never_raises:
  "(\<exists>b r. parse buffer data = Inr (b, r))
   \<and> (0x80 \<le> (of_char c :: nat) \<and> ((of_char c :: nat) < 0xC2 \<or> 0xF4 < (of_char c :: nat))
        \<longrightarrow> decode (c # cs) = 0xFFFD # decode cs)
   \<and> (scalar cp \<and> map of_char enc = utf8_encode cp \<longrightarrow> decode (enc @ cs) = cp # decode cs)
   \<and> (scalar cp \<and> 0 < n \<and> n < length (utf8_encode cp)
        \<and> map of_char trunc = take n (utf8_encode cp)
        \<and> (cs = [] \<or> \<not> is_cont (of_char (hd cs)))
        \<longrightarrow> decode (trunc @ cs) = 0xFFFD # decode cs)
   \<and> (ds \<noteq> []
        \<and> (\<forall>cp. scalar cp \<longrightarrow> take (length (utf8_encode cp)) (map of_char ds) \<noteq> utf8_encode cp)
        \<longrightarrow> (\<exists>k. 1 \<le> k \<and> k \<le> 3 \<and> decode ds = 0xFFFD # decode (drop k ds)))
   \<and> (split_nl (buffer @ decode data) = ls1 @ line # ls2 \<and> ls2 \<noteq> [] \<and> noise line
        \<longrightarrow> parse buffer data
              = Inr (last ls2, foldl process_line no_reading (ls1 @ butlast ls2)))"
proof -
  have skip: "parse buffer data
      = Inr (last ls2, foldl process_line no_reading (ls1 @ butlast ls2))"
    if "split_nl (buffer @ decode data) = ls1 @ line # ls2" "ls2 \<noteq> []" "noise line"
    using that by (simp add: parse_eq butlast_append noise_process_line)
  have c1: "\<exists>b r. parse buffer data = Inr (b, r)" by (simp add: parse_eq)
  have c2: "0x80 \<le> (of_char c :: nat) \<and> ((of_char c :: nat) < 0xC2 \<or> 0xF4 < (of_char c :: nat))
        \<longrightarrow> decode (c # cs) = 0xFFFD # decode cs"
    using decode_invalid_lead [of c cs] by blast
  have c3: "scalar cp \<and> map of_char enc = utf8_encode cp \<longrightarrow> decode (enc @ cs) = cp # decode cs"
    using decode_encode [of cp enc cs] by blast
  have c4: "scalar cp \<and> 0 < n \<and> n < length (utf8_encode cp)
        \<and> map of_char trunc = take n (utf8_encode cp)
        \<and> (cs = [] \<or> \<not> is_cont (of_char (hd cs)))
        \<longrightarrow> decode (trunc @ cs) = 0xFFFD # decode cs"
    using decode_truncated [of cp n trunc cs] by blast
  have c5: "ds \<noteq> []
        \<and> (\<forall>cp. scalar cp \<longrightarrow> take (length (utf8_encode cp)) (map of_char ds) \<noteq> utf8_encode cp)
        \<longrightarrow> (\<exists>k. 1 \<le> k \<and> k \<le> 3 \<and> decode ds = 0xFFFD # decode (drop k ds))"
    using decode_ill_formed [of ds] by blast
  have c6: "split_nl (buffer @ decode data) = ls1 @ line # ls2 \<and> ls2 \<noteq> [] \<and> noise line
        \<longrightarrow> parse buffer data
              = Inr (last ls2, foldl process_line no_reading (ls1 @ butlast ls2))"
    using skip by blast
  from c1 c2 c3 c4 c5 c6 show ?thesis by (intro conjI)
qed

theorem parse_never_raises_witness:
  "split_nl ([] @ decode rx_noisy)
     = [lit ''CT_A:1.0''] @ (0xFFFD # lit ''xx CT_A:1.2.3'') # [lit ''HALL1_A:2.0'', []]
   \<and> noise (0xFFFD # lit ''xx CT_A:1.2.3'')
   \<and> parse [] rx_noisy = Inr ([], no_reading(Ct_clamp \<mapsto> 1, Hall1 \<mapsto> 2))
   \<and> decode (CHR 0xFF # ''x'') = 0xFFFD # decode ''x''
   \<and> scalar 0x20AC \<and> map of_char rx_euro = utf8_encode 0x20AC
   \<and> decode (rx_euro @ ''x'') = 0x20AC # decode ''x''
   \<and> map of_char rx_euro_cut = take 2 (utf8_encode 0x20AC)
   \<and> \<not> is_cont (of_char (hd ''x''))
   \<and> decode (rx_euro_cut @ ''x'') = 0xFFFD # decode ''x''
   \<and> decode (rx_euro_cut @ []) = 0xFFFD # decode []
   \<and> (\<exists>k. 1 \<le> k \<and> k \<le> 3 \<and> decode rx_overlong = 0xFFFD # decode (drop k rx_overlong))
   \<and> decode rx_overlong = [0xFFFD, 0xFFFD, 0x41]"
proof -
  have sp: "split_nl ([] @ decode rx_noisy)
      = [lit ''CT_A:1.0''] @ (0xFFFD # lit ''xx CT_A:1.2.3'') # [lit ''HALL1_A:2.0'', []]"
    by (simp add: rx_noisy_def decode_def lit_def)
  have ns: "noise (0xFFFD # lit ''xx CT_A:1.2.3'')"
    by (simp add: noise_def parser_eval)
  have ne: "[lit ''HALL1_A:2.0'', []] \<noteq> []" by simp
  have ff: "0x80 \<le> (of_char (CHR 0xFF) :: nat)
      \<and> ((of_char (CHR 0xFF) :: nat) < 0xC2 \<or> 0xF4 < (of_char (CHR 0xFF) :: nat))"
    by simp
  have rs: "foldl process_line no_reading ([lit ''CT_A:1.0''] @ butlast [lit ''HALL1_A:2.0'', []])
      = no_reading(Ct_clamp \<mapsto> 1, Hall1 \<mapsto> 2)"
    by (simp add: parser_eval)
  have sc: "scalar 0x20AC" by (simp add: scalar_def)
  have en: "utf8_encode 0x20AC = [0xE2, 0x82, 0xAC]" by (simp add: utf8_encode_def)
  have e1: "map of_char rx_euro = utf8_encode 0x20AC" by (simp add: en rx_euro_def)
  have e2: "map of_char rx_euro_cut = take 2 (utf8_encode 0x20AC)"
    by (simp add: en rx_euro_cut_def)
  have n2: "(0::nat) < 2 \<and> 2 < length (utf8_encode 0x20AC)" by (simp add: en)
  have nc: "\<not> is_cont (of_char (hd ''x''))" by (simp add: is_cont_def)
  have ov: "rx_overlong \<noteq> []
      \<and> (\<forall>cp. scalar cp \<longrightarrow> take (length (utf8_encode cp)) (map of_char rx_overlong)
            \<noteq> utf8_encode cp)"
    using overlong_ill_formed by (simp add: rx_overlong_def)
  note inst = parse_never_raises [where buffer = "[]" and data = rx_noisy and c = "CHR 0xFF"
      and cs = "''x''" and ?ls1.0 = "[lit ''CT_A:1.0'']"
      and line = "0xFFFD # lit ''xx CT_A:1.2.3''" and ?ls2.0 = "[lit ''HALL1_A:2.0'', []]"
      and cp = "0x20AC" and enc = rx_euro and n = 2 and trunc = rx_euro_cut and ds = rx_overlong]
  note inst0 = parse_never_raises [where cs = "[]" and cp = "0x20AC" and n = 2
      and trunc = rx_euro_cut]
  from inst ff have a: "decode (CHR 0xFF # ''x'') = 0xFFFD # decode ''x''" by blast
  from inst sp ns ne have b: "parse [] rx_noisy
      = Inr (last [lit ''HALL1_A:2.0'', []],
             foldl process_line no_reading ([lit ''CT_A:1.0''] @ butlast [lit ''HALL1_A:2.0'', []]))"
    by blast
  from inst sc e1 have c: "decode (rx_euro @ ''x'') = 0x20AC # decode ''x''" by blast
  from inst sc n2 e2 nc have d: "decode (rx_euro_cut @ ''x'') = 0xFFFD # decode ''x''" by blast
  from inst0 sc n2 e2 have e: "decode (rx_euro_cut @ []) = 0xFFFD # decode []" by blast
  from inst ov
  have f: "\<exists>k. 1 \<le> k \<and> k \<le> 3 \<and> decode rx_overlong = 0xFFFD # decode (drop k rx_overlong)"
    by blast
  have g: "decode rx_overlong = [0xFFFD, 0xFFFD, 0x41]"
    by (simp add: rx_overlong_def decode_def second_ok_def)
  from b have b': "parse [] rx_noisy = Inr ([], no_reading(Ct_clamp \<mapsto> 1, Hall1 \<mapsto> 2))"
    unfolding rs by simp
  from sp ns b' a sc e1 c e2 nc d e f g show ?thesis by (intro conjI)
qed

subsection \<open>Matching a token\<close>

lemma digit_not_space: "is_digit c \<Longrightarrow> \<not> isspace c"
proof (cases "c < 0x80")
  case True
  assume "is_digit c"
  with True show ?thesis by (auto simp: is_digit_def decimal_def isspace_def split: if_splits)
next
  case False
  assume "is_digit c"
  with False obtain z where "z \<in> set nd_zeros" "z \<le> c" "c \<le> z + 9"
    by (auto simp: is_digit_def decimal_def find_None_iff)
  then show ?thesis by (auto simp: nd_zeros_def isspace_def)
qed

lemma num_not_sep: "is_numeric c \<Longrightarrow> \<not> is_sep c"
  using digit_not_space [of c]
  by (auto simp: is_numeric_def is_sep_def isspace_def is_digit_def decimal_def)

lemma match_here_token:
  assumes "seps \<noteq> []" "list_all is_sep seps" "num \<noteq> []" "list_all is_numeric num"
    and "rest = [] \<or> \<not> is_numeric (hd rest)"
  shows "match_here tg (tg @ seps @ num @ rest) = Some num"
proof -
  obtain n ns where num: "num = n # ns" using assms(3) by (cases num) auto
  have n: "is_numeric n" "\<not> is_sep n" using assms(4) num num_not_sep by auto
  have t1: "takeWhile is_sep (seps @ num @ rest) = seps"
    using assms(2) n num by (simp add: takeWhile_append2 list_all_iff)
  have d1: "dropWhile is_sep (seps @ num @ rest) = num @ rest"
    using assms(2) n num by (simp add: dropWhile_append2 list_all_iff)
  have t2: "takeWhile is_numeric (num @ rest) = num"
  proof (cases rest)
    case Nil
    then show ?thesis using assms(4) by (simp add: list_all_iff)
  next
    case (Cons r rs)
    then show ?thesis using assms(4,5) by (simp add: takeWhile_append2 list_all_iff)
  qed
  show ?thesis
    using assms(1,3) by (simp add: match_here_def Let_def t1 d1 t2)
qed

lemma re_search_skip:
  "\<forall>i < length pre. match_here tg (drop i (pre @ s)) = None
     \<Longrightarrow> match_here tg s = Some g \<Longrightarrow> re_search tg (pre @ s) = Some g"
proof (induction pre)
  case Nil
  then show ?case by (cases s) simp_all
next
  case (Cons c pre)
  have "match_here tg (drop 0 ((c # pre) @ s)) = None"
    using Cons.prems(1) by (metis length_greater_0_conv list.distinct(1))
  moreover have "\<forall>i < length pre. match_here tg (drop i (pre @ s)) = None"
  proof (intro allI impI)
    fix i assume "i < length pre"
    then have "match_here tg (drop (Suc i) ((c # pre) @ s)) = None"
      using Cons.prems(1) by (metis Suc_less_eq length_Cons)
    then show "match_here tg (drop i (pre @ s)) = None" by simp
  qed
  ultimately show ?case using Cons.IH Cons.prems(2) by simp
qed

lemma apply_pattern_other:
  "fst kp \<noteq> key \<Longrightarrow> apply_pattern line result kp key = result key"
  by (simp add: apply_pattern_def split: option.splits sum.splits)

lemma apply_pattern_hit:
  "re_search tg line = Some g \<Longrightarrow> py_float g = Inr v
     \<Longrightarrow> apply_pattern line result (key, tg) key = Some v"
  by (simp add: apply_pattern_def)

lemma foldl_patterns_hit:
  assumes "(key, tg) \<in> set PATTERNS" "re_search tg line = Some g" "py_float g = Inr v"
  shows "foldl (apply_pattern line) result PATTERNS key = Some v"
  using assms
  by (auto simp: PATTERNS_def apply_pattern_other apply_pattern_hit)

text \<open>
  C7 as it is stated fails: the tag followed at once by the number, with no separator,
  matches nothing, and the channel stays absent.
\<close>

theorem no_separator_counterexample:
  "parse [] rx_nosep = Inr ([], no_reading) \<and> no_reading Ct_clamp = None"
  by (simp add: rx_nosep_def parse_eq parser_eval no_reading_def)

text \<open>Where the tag is not followed by a separator, the pattern does not match.\<close>

lemma match_here_no_sep:
  assumes "take (length tg) s = tg \<longrightarrow>
      (case drop (length tg) s of [] \<Rightarrow> True | c # _ \<Rightarrow> \<not> is_sep c)"
  shows "match_here tg s = None"
proof (cases "take (length tg) s = tg")
  case False
  then show ?thesis by (simp add: match_here_def)
next
  case True
  with assms have "takeWhile is_sep (drop (length tg) s) = []"
    by (cases "drop (length tg) s") auto
  then show ?thesis by (simp add: match_here_def Let_def)
qed

lemma re_search_none:
  "\<forall>i. match_here tg (drop i s) = None \<Longrightarrow> re_search tg s = None"
proof (induction s)
  case Nil
  then show ?case by (metis drop_Nil re_search.simps(1))
next
  case (Cons c cs)
  have "match_here tg (c # cs) = None" using Cons.prems [rule_format, of 0] by simp
  moreover have "\<forall>i. match_here tg (drop i cs) = None"
  proof
    fix i
    show "match_here tg (drop i cs) = None" using Cons.prems [rule_format, of "Suc i"] by simp
  qed
  ultimately show ?case using Cons.IH by simp
qed

lemma apply_pattern_miss:
  "re_search tg line = None \<Longrightarrow> apply_pattern line result (key, tg) = result"
  by (simp add: apply_pattern_def)

lemma foldl_patterns_miss:
  assumes "(key, tg) \<in> set PATTERNS" "re_search tg line = None"
  shows "foldl (apply_pattern line) result PATTERNS key = result key"
  using assms
  by (auto simp: PATTERNS_def apply_pattern_other apply_pattern_miss)

text \<open>
  C7, amended: on a complete line, trimmed, a token made of the tag, one or more
  separator characters (colon, equals sign, whitespace) and a run of number characters
  that \<^verbatim>\<open>float\<close> accepts yields that channel's value, when it is the leftmost place of the
  line where the pattern of that tag matches. And a line on which the tag is nowhere
  followed by a separator character (wherever the tag stands, the line ends behind it or
  goes on with a character that is not a separator, as in \<^verbatim>\<open>CT_A1.5\<close>) yields no value
  for that channel: the channel keeps what the earlier lines of the call gave it.
\<close>

theorem token_extracted:
  assumes "(key, tg) \<in> set PATTERNS"
  shows "(strip line0 = pre @ tg @ seps @ num @ rest
          \<and> (\<forall>i < length pre. match_here tg (drop i (strip line0)) = None)
          \<and> seps \<noteq> [] \<and> list_all is_sep seps
          \<and> list_all is_numeric num
          \<and> (rest = [] \<or> \<not> is_numeric (hd rest))
          \<and> py_float num = Inr v
          \<longrightarrow> process_line result line0 key = Some v)
       \<and> ((\<forall>i. take (length tg) (drop i (strip line1)) = tg \<longrightarrow>
               (case drop (i + length tg) (strip line1) of [] \<Rightarrow> True | c # _ \<Rightarrow> \<not> is_sep c))
          \<longrightarrow> process_line result line1 key = result key)"
proof (intro conjI impI)
  assume h: "strip line0 = pre @ tg @ seps @ num @ rest
          \<and> (\<forall>i < length pre. match_here tg (drop i (strip line0)) = None)
          \<and> seps \<noteq> [] \<and> list_all is_sep seps
          \<and> list_all is_numeric num
          \<and> (rest = [] \<or> \<not> is_numeric (hd rest))
          \<and> py_float num = Inr v"
  then have h2: "strip line0 = pre @ tg @ seps @ num @ rest"
    and h3: "\<forall>i < length pre. match_here tg (drop i (strip line0)) = None"
    and h4: "seps \<noteq> []" and h5: "list_all is_sep seps"
    and h6: "list_all is_numeric num"
    and h7: "rest = [] \<or> \<not> is_numeric (hd rest)"
    and h8: "py_float num = Inr v" by blast+
  have nn: "num \<noteq> []" using h8 by (auto simp: py_float_def)
  have m: "match_here tg (tg @ seps @ num @ rest) = Some num"
    using h4 h5 nn h6 h7 by (rule match_here_token)
  have s: "re_search tg (strip line0) = Some num"
    unfolding h2 using h3 m unfolding h2 by (rule re_search_skip)
  have "tg \<noteq> []" using assms by (auto simp: PATTERNS_def lit_def)
  then have "strip line0 \<noteq> []" using h2 by simp
  then show "process_line result line0 key = Some v"
    using foldl_patterns_hit [OF assms s h8] by (simp add: process_line_def Let_def)
next
  assume h: "\<forall>i. take (length tg) (drop i (strip line1)) = tg \<longrightarrow>
      (case drop (i + length tg) (strip line1) of [] \<Rightarrow> True | c # _ \<Rightarrow> \<not> is_sep c)"
  have "\<forall>i. match_here tg (drop i (strip line1)) = None"
  proof
    fix i
    show "match_here tg (drop i (strip line1)) = None"
      using h [rule_format, of i] by (intro match_here_no_sep) (simp add: add.commute)
  qed
  then have "re_search tg (strip line1) = None" by (rule re_search_none)
  then show "process_line result line1 key = result key"
    using foldl_patterns_miss [OF assms] by (simp add: process_line_def Let_def)
qed

theorem token_extracted_witness:
  "(Ct_clamp, lit ''CT_A'') \<in> set PATTERNS
   \<and> strip line_token = lit ''x '' @ lit ''CT_A'' @ lit '' = '' @ lit ''-1.25'' @ lit '' V''
   \<and> length (lit ''x '') = 2
   \<and> match_here (lit ''CT_A'') (drop 0 (strip line_token)) = None
   \<and> match_here (lit ''CT_A'') (drop 1 (strip line_token)) = None
   \<and> lit '' = '' \<noteq> [] \<and> list_all is_sep (lit '' = '')
   \<and> list_all is_numeric (lit ''-1.25'')
   \<and> \<not> is_numeric (hd (lit '' V''))
   \<and> py_float (lit ''-1.25'') = Inr (- (5 / 4))
   \<and> process_line no_reading line_token Ct_clamp = Some (- (5 / 4))
   \<and> strip line_nosep = lit ''CT_A'' @ lit ''1.5''
   \<and> \<not> is_sep (hd (lit ''1.5''))
   \<and> process_line (no_reading(Ct_clamp \<mapsto> 7)) line_nosep Ct_clamp = Some 7"
proof -
  have h1: "(Ct_clamp, lit ''CT_A'') \<in> set PATTERNS" by (simp add: PATTERNS_def)
  have st: "strip line_token = lit ''x CT_A = -1.25 V''"
    by (simp add: line_token_def strip_def lit_def isspace_def)
  have h2: "strip line_token = lit ''x '' @ lit ''CT_A'' @ lit '' = '' @ lit ''-1.25'' @ lit '' V''"
    unfolding st by (simp add: lit_def)
  have h3: "\<forall>i < length (lit ''x ''). match_here (lit ''CT_A'') (drop i (strip line_token)) = None"
  proof (intro allI impI)
    fix i assume "i < length (lit ''x '')"
    then have "i = 0 \<or> i = 1" by (auto simp: lit_def)
    then show "match_here (lit ''CT_A'') (drop i (strip line_token)) = None"
      unfolding st by (auto simp: lit_def match_here_def)
  qed
  have h4: "lit '' = '' \<noteq> []" by (simp add: lit_def)
  have h5: "list_all is_sep (lit '' = '')" by (simp add: lit_def is_sep_def isspace_def)
  have h6: "list_all is_numeric (lit ''-1.25'')"
    by (simp add: lit_def is_numeric_def is_digit_def decimal_def)
  have h7: "lit '' V'' = [] \<or> \<not> is_numeric (hd (lit '' V''))"
    by (simp add: lit_def is_numeric_def is_digit_def decimal_def)
  have h8: "py_float (lit ''-1.25'') = Inr (- (5 / 4))" by (simp add: parser_eval)
  have sn: "strip line_nosep = lit ''CT_A1.5''"
    by (simp add: line_nosep_def strip_def lit_def isspace_def)
  have g1: "strip line_nosep = lit ''CT_A'' @ lit ''1.5''" unfolding sn by (simp add: lit_def)
  have g2: "\<not> is_sep (hd (lit ''1.5''))" by (simp add: lit_def is_sep_def isspace_def)
  have g3: "\<forall>i. take (length (lit ''CT_A'')) (drop i (strip line_nosep)) = lit ''CT_A'' \<longrightarrow>
      (case drop (i + length (lit ''CT_A'')) (strip line_nosep) of
         [] \<Rightarrow> True | c # _ \<Rightarrow> \<not> is_sep c)"
  proof (intro allI impI)
    fix i
    assume t: "take (length (lit ''CT_A'')) (drop i (strip line_nosep)) = lit ''CT_A''"
    have "i = 0"
    proof (rule ccontr)
      assume "i \<noteq> 0"
      then consider "i = 1" | "i = 2" | "i = 3" | "4 \<le> i" by linarith
      then show False
      proof cases
        case 4
        then have "length (drop i (strip line_nosep)) \<le> 3" unfolding sn by (simp add: lit_def)
        then have "length (take (length (lit ''CT_A'')) (drop i (strip line_nosep))) \<le> 3"
          by simp
        with t show False by (simp add: lit_def)
      qed (use t in \<open>simp_all add: sn lit_def\<close>)
    qed
    then show "case drop (i + length (lit ''CT_A'')) (strip line_nosep) of
        [] \<Rightarrow> True | c # _ \<Rightarrow> \<not> is_sep c"
      unfolding sn by (simp add: lit_def is_sep_def isspace_def)
  qed
  note both = token_extracted [OF h1, where ?line0.0 = line_token and pre = "lit ''x ''"
      and seps = "lit '' = ''" and num = "lit ''-1.25''" and rest = "lit '' V''"
      and v = "- (5 / 4)" and ?line1.0 = line_nosep]
  have p1: "process_line no_reading line_token Ct_clamp = Some (- (5 / 4))"
    using both [of no_reading] h2 h3 h4 h5 h6 h7 h8 by blast
  have "process_line (no_reading(Ct_clamp \<mapsto> 7)) line_nosep Ct_clamp
      = (no_reading(Ct_clamp \<mapsto> 7)) Ct_clamp"
    using both [of "no_reading(Ct_clamp \<mapsto> 7)"] g3 by blast
  then have p2: "process_line (no_reading(Ct_clamp \<mapsto> 7)) line_nosep Ct_clamp = Some 7"
    by simp
  have l2: "length (lit ''x '') = 2" by (simp add: lit_def)
  have m0: "match_here (lit ''CT_A'') (drop 0 (strip line_token)) = None"
    and m1: "match_here (lit ''CT_A'') (drop 1 (strip line_token)) = None"
    unfolding st by (simp_all add: lit_def match_here_def)
  have h7': "\<not> is_numeric (hd (lit '' V''))"
    using h7 by (simp add: lit_def)
  from h1 h2 l2 m0 m1 h4 h5 h6 h7' h8 p1 g1 g2 p2 show ?thesis by (intro conjI)
qed

subsection \<open>The scan order\<close>

lemma sorted_scan_keys:
  "sorted_wrt (\<lambda>a b. scan_key a \<le> scan_key b) (sort_found found)"
proof -
  have "sorted (map scan_key (sort_found found))" by (simp add: sort_found_def)
  then show ?thesis by (simp add: sorted_map)
qed

lemma scan_key_le_posted_before: "scan_key a \<le> scan_key b \<Longrightarrow> posted_before a b"
  by (auto simp: scan_key_def posted_before_def less_eq_prod_def)

lemma posted_before_weak_before:
  assumes "posted_before a b" "plain_rssi a" "plain_rssi b"
  shows "weak_before a b"
proof (cases "(name a = lit ''<unknown>'') = (name b = lit ''<unknown>'')")
  case False
  with assms(1) show ?thesis by (simp add: posted_before_def weak_before_def)
next
  case True
  with assms(1) have le: "rssi_or b \<le> rssi_or a" by (simp add: posted_before_def)
  have "case (rssi a, rssi b) of
          (Some x, Some y) \<Rightarrow> y \<le> x
        | (Some x, None) \<Rightarrow> True
        | (None, Some y) \<Rightarrow> False
        | (None, None) \<Rightarrow> True"
  proof (cases "rssi a")
    case None
    show ?thesis
    proof (cases "rssi b")
      case b: None
      with None show ?thesis by simp
    next
      case (Some y)
      with None le assms(3) show ?thesis by (simp add: rssi_or_def plain_rssi_def)
    qed
  next
    case (Some x)
    show ?thesis
    proof (cases "rssi b")
      case None
      with Some show ?thesis by simp
    next
      case b: (Some y)
      with Some le assms(2,3) show ?thesis by (simp add: rssi_or_def plain_rssi_def)
    qed
  qed
  with True show ?thesis by (simp add: weak_before_def)
qed

text \<open>
  Claim C3 as stated: named devices before \<^verbatim>\<open><unknown>\<close> ones and, among devices of the
  same kind, strictly descending signal strength with a missing strength weakest
  (\<^const>\<open>spec_before\<close>). The sorted list violates it for two named devices of equal strength
  (neither is strictly stronger), for a named device of strength 0 (it is placed after a device
  of strength -40), and for a device of strength -1000 (it is placed after a device whose
  strength is missing).
\<close>

theorem scan_order_counterexample:
  "\<not> sorted_wrt spec_before (sort_found found_tie)
   \<and> \<not> sorted_wrt spec_before (sort_found found_zero)
   \<and> \<not> sorted_wrt spec_before (sort_found found_far)"
  by (simp add: sort_found_def found_tie_def found_zero_def found_far_def scan_key_def
        rssi_or_def spec_before_def lit_def)

text \<open>
  Claim C3, amended. For every list of devices found, the list posted by a scan is a
  rearrangement of it in which every named device precedes every \<^verbatim>\<open><unknown>\<close> one and,
  within each of the two groups, the effective strength never increases, where the effective
  strength of a device is its reported strength, or -999 when the strength is missing or 0
  (\<^const>\<open>posted_before\<close>); devices of the same group and effective strength keep the order
  of discovery. In particular, of any two posted devices whose strengths are each missing, or
  reported, nonzero and above -999, the earlier one is named if either is, and within a group
  it is at least as strong, a missing strength being weakest (\<^const>\<open>weak_before\<close>).
\<close>

theorem scan_order:
  "mset (sort_found found) = mset found
   \<and> sorted_wrt posted_before (sort_found found)
   \<and> sorted_wrt (\<lambda>a b. plain_rssi a \<and> plain_rssi b \<longrightarrow> weak_before a b) (sort_found found)
   \<and> (\<forall>k. filter (\<lambda>d. scan_key d = k) (sort_found found) = filter (\<lambda>d. scan_key d = k) found)"
proof -
  have p: "sorted_wrt posted_before (sort_found found)"
    using sorted_scan_keys [of found]
    by (rule sorted_wrt_mono_rel [rotated]) (rule scan_key_le_posted_before)
  then have w: "sorted_wrt (\<lambda>a b. plain_rssi a \<and> plain_rssi b \<longrightarrow> weak_before a b)
      (sort_found found)"
    by (rule sorted_wrt_mono_rel [rotated]) (simp add: posted_before_weak_before)
  have m: "mset (sort_found found) = mset found" by (simp add: sort_found_def)
  have s: "\<forall>k. filter (\<lambda>d. scan_key d = k) (sort_found found)
      = filter (\<lambda>d. scan_key d = k) found"
    by (simp add: sort_found_def sort_key_stable)
  from m p w s show ?thesis by (intro conjI)
qed

text \<open>
  The example of claim C3: Alpha (-40), an unnamed device (-30) and Beta (-60) are posted as
  Alpha, Beta, unnamed.
\<close>

theorem scan_order_witness:
  "sort_found found_example =
     [\<lparr>name = lit ''Alpha'', address = lit ''A1'', rssi = Some (- 40)\<rparr>,
      \<lparr>name = lit ''Beta'', address = lit ''B2'', rssi = Some (- 60)\<rparr>,
      \<lparr>name = lit ''<unknown>'', address = lit ''C3'', rssi = Some (- 30)\<rparr>]
   \<and> list_all plain_rssi found_example
   \<and> sorted_wrt weak_before (sort_found found_example)
   \<and> sorted_wrt posted_before (sort_found found_example)
   \<and> mset (sort_found found_example) = mset found_example"
proof -
  have ex: "sort_found found_example =
     [\<lparr>name = lit ''Alpha'', address = lit ''A1'', rssi = Some (- 40)\<rparr>,
      \<lparr>name = lit ''Beta'', address = lit ''B2'', rssi = Some (- 60)\<rparr>,
      \<lparr>name = lit ''<unknown>'', address = lit ''C3'', rssi = Some (- 30)\<rparr>]"
    by (simp add: sort_found_def found_example_def scan_key_def rssi_or_def lit_def)
  have pl: "list_all plain_rssi found_example"
    by (simp add: found_example_def plain_rssi_def)
  note so = scan_order [of found_example]
  from so have "sorted_wrt (\<lambda>a b. plain_rssi a \<and> plain_rssi b \<longrightarrow> weak_before a b)
      (sort_found found_example)" by blast
  then have w: "sorted_wrt weak_before (sort_found found_example)"
    unfolding ex by (simp add: plain_rssi_def)
  from so have p: "sorted_wrt posted_before (sort_found found_example)" by blast
  from so have m: "mset (sort_found found_example) = mset found_example" by blast
  from ex pl w p m show ?thesis by (intro conjI)
qed

subsection \<open>A strength of exactly 0\<close>

lemma insort_key_map:
  "\<forall>x. f (g x) = f x \<Longrightarrow> insort_key f (g x) (map g ys) = map g (insort_key f x ys)"
  by (induction ys) simp_all

lemma sort_key_map:
  "\<forall>x. f (g x) = f x \<Longrightarrow> sort_key f (map g xs) = map g (sort_key f xs)"
  by (induction xs) (simp_all add: insort_key_map)

lemma scan_key_zero_as_missing: "scan_key (zero_as_missing d) = scan_key d"
  by (simp add: scan_key_def zero_as_missing_def rssi_or_def)

lemma same_group_rssi_or:
  "scan_key a \<le> scan_key b \<Longrightarrow> same_group a b \<Longrightarrow> rssi_or b \<le> rssi_or a"
  by (simp add: scan_key_def same_group_def less_eq_prod_def)

lemma after_zero:
  "scan_key a \<le> scan_key b \<Longrightarrow> same_group a b \<and> rssi a = Some 0
     \<longrightarrow> (case rssi b of None \<Rightarrow> True | Some r \<Rightarrow> r = 0 \<or> r \<le> - 999)"
proof
  assume k: "scan_key a \<le> scan_key b" and h: "same_group a b \<and> rssi a = Some 0"
  then have "rssi_or b \<le> rssi_or a" by (simp add: same_group_rssi_or)
  with h have "rssi_or b \<le> - 999" by (simp add: rssi_or_def)
  then show "case rssi b of None \<Rightarrow> True | Some r \<Rightarrow> r = 0 \<or> r \<le> - 999"
    by (cases "rssi b") (simp_all add: rssi_or_def split: if_splits)
qed

lemma before_zero:
  "scan_key a \<le> scan_key b \<Longrightarrow> same_group a b \<and> rssi b = Some 0
     \<longrightarrow> (case rssi a of None \<Rightarrow> True | Some r \<Rightarrow> - 999 \<le> r)"
proof
  assume k: "scan_key a \<le> scan_key b" and h: "same_group a b \<and> rssi b = Some 0"
  then have "rssi_or b \<le> rssi_or a" by (simp add: same_group_rssi_or)
  with h have "- 999 \<le> rssi_or a" by (simp add: rssi_or_def)
  then show "case rssi a of None \<Rightarrow> True | Some r \<Rightarrow> - 999 \<le> r"
    by (cases "rssi a") (simp_all add: rssi_or_def split: if_splits)
qed

text \<open>
  Claim C10 as stated: a device of strength 0 is not always posted as the weakest of its
  group. Alpha (0) stays in front of Beta (-1000), a device of its group with a reported
  strength.
\<close>

theorem zero_rssi_counterexample:
  "\<not> zero_weakest (sort_found found_below)
   \<and> sort_found found_below =
       [\<lparr>name = lit ''Alpha'', address = lit ''A1'', rssi = Some 0\<rparr>,
        \<lparr>name = lit ''Beta'', address = lit ''B2'', rssi = Some (- 1000)\<rparr>]"
  by (simp add: sort_found_def found_below_def scan_key_def rssi_or_def zero_weakest_def
        same_group_def lit_def)

lemma zero_position:
  assumes a: "sorted_wrt (\<lambda>a b. same_group a b \<and> rssi a = Some 0
                    \<longrightarrow> (case rssi b of None \<Rightarrow> True | Some r \<Rightarrow> r = 0 \<or> r \<le> - 999)) xs"
    and b: "sorted_wrt (\<lambda>a b. same_group a b \<and> rssi b = Some 0
                    \<longrightarrow> (case rssi a of None \<Rightarrow> True | Some r \<Rightarrow> - 999 \<le> r)) xs"
    and i: "i < length xs" and j: "j < length xs"
    and g: "same_group (xs ! i) (xs ! j)"
    and z: "rssi (xs ! i) = Some 0" and r: "rssi (xs ! j) = Some r" "r \<noteq> 0"
  shows "(- 999 < r \<longrightarrow> j < i) \<and> (r < - 999 \<longrightarrow> i < j)"
proof -
  have ne: "i \<noteq> j" using z r by auto
  have g': "same_group (xs ! j) (xs ! i)" using g by (auto simp: same_group_def)
  have 1: "r = 0 \<or> r \<le> - 999" if "i < j"
  proof -
    from a that j have "same_group (xs ! i) (xs ! j) \<and> rssi (xs ! i) = Some 0
        \<longrightarrow> (case rssi (xs ! j) of None \<Rightarrow> True | Some r \<Rightarrow> r = 0 \<or> r \<le> - 999)"
      by (simp add: sorted_wrt_iff_nth_less)
    with g z r(1) show ?thesis by simp
  qed
  have 2: "- 999 \<le> r" if "j < i"
  proof -
    from b that i have "same_group (xs ! j) (xs ! i) \<and> rssi (xs ! i) = Some 0
        \<longrightarrow> (case rssi (xs ! j) of None \<Rightarrow> True | Some r \<Rightarrow> - 999 \<le> r)"
      by (simp add: sorted_wrt_iff_nth_less)
    with g' z r(1) show ?thesis by simp
  qed
  show ?thesis
  proof (intro conjI impI)
    assume "- 999 < r"
    with 1 r(2) have "\<not> i < j" by auto
    with ne show "j < i" by simp
  next
    assume "r < - 999"
    with 2 have "\<not> j < i" by auto
    with ne show "i < j" by simp
  qed
qed

text \<open>
  Claim C10, amended. A device whose strength is exactly 0 is posted as if its strength were
  missing, both taking the sentinel -999 in the key: the posted list with every strength 0
  replaced by a missing one is the list posted for the devices found with that replacement
  made. In the posted list, the devices of its group behind a device of strength 0 have a
  strength that is missing, 0 or at most -999, and the devices of its group in front of it have
  a strength that is missing or at least -999. So, of the devices of its group with a
  nonzero strength, it stands behind each one whose strength is above -999 and in front of,
  not behind, each one whose strength is below -999.
\<close>

theorem zero_rssi_as_missing:
  "sort_found (map zero_as_missing found) = map zero_as_missing (sort_found found)
   \<and> sorted_wrt (\<lambda>a b. same_group a b \<and> rssi a = Some 0
                    \<longrightarrow> (case rssi b of None \<Rightarrow> True | Some r \<Rightarrow> r = 0 \<or> r \<le> - 999))
       (sort_found found)
   \<and> sorted_wrt (\<lambda>a b. same_group a b \<and> rssi b = Some 0
                    \<longrightarrow> (case rssi a of None \<Rightarrow> True | Some r \<Rightarrow> - 999 \<le> r))
       (sort_found found)
   \<and> (i < length (sort_found found) \<and> j < length (sort_found found)
        \<and> same_group (sort_found found ! i) (sort_found found ! j)
        \<and> rssi (sort_found found ! i) = Some 0
        \<and> rssi (sort_found found ! j) = Some r \<and> r \<noteq> 0
      \<longrightarrow> (- 999 < r \<longrightarrow> j < i) \<and> (r < - 999 \<longrightarrow> i < j))"
proof -
  have c: "sort_found (map zero_as_missing found) = map zero_as_missing (sort_found found)"
    unfolding sort_found_def by (rule sort_key_map) (simp add: scan_key_zero_as_missing)
  have a: "sorted_wrt (\<lambda>a b. same_group a b \<and> rssi a = Some 0
                    \<longrightarrow> (case rssi b of None \<Rightarrow> True | Some r \<Rightarrow> r = 0 \<or> r \<le> - 999))
       (sort_found found)"
    using sorted_scan_keys [of found] by (rule sorted_wrt_mono_rel [rotated]) (rule after_zero)
  have b: "sorted_wrt (\<lambda>a b. same_group a b \<and> rssi b = Some 0
                    \<longrightarrow> (case rssi a of None \<Rightarrow> True | Some r \<Rightarrow> - 999 \<le> r))
       (sort_found found)"
    using sorted_scan_keys [of found] by (rule sorted_wrt_mono_rel [rotated]) (rule before_zero)
  have d: "i < length (sort_found found) \<and> j < length (sort_found found)
        \<and> same_group (sort_found found ! i) (sort_found found ! j)
        \<and> rssi (sort_found found ! i) = Some 0
        \<and> rssi (sort_found found ! j) = Some r \<and> r \<noteq> 0
      \<longrightarrow> (- 999 < r \<longrightarrow> j < i) \<and> (r < - 999 \<longrightarrow> i < j)"
    using zero_position [OF a b, of i j r] by blast
  from c a b d show ?thesis by (intro conjI)
qed

text \<open>
  Alpha (0), Beta (-1000) and Gamma (-40), all named, are posted as Gamma, Alpha, Beta, as
  they are when Alpha's strength is missing.
\<close>

theorem zero_rssi_as_missing_witness:
  "sort_found found_mixed =
     [\<lparr>name = lit ''Gamma'', address = lit ''C3'', rssi = Some (- 40)\<rparr>,
      \<lparr>name = lit ''Alpha'', address = lit ''A1'', rssi = Some 0\<rparr>,
      \<lparr>name = lit ''Beta'', address = lit ''B2'', rssi = Some (- 1000)\<rparr>]
   \<and> sort_found (map zero_as_missing found_mixed) =
     [\<lparr>name = lit ''Gamma'', address = lit ''C3'', rssi = Some (- 40)\<rparr>,
      \<lparr>name = lit ''Alpha'', address = lit ''A1'', rssi = None\<rparr>,
      \<lparr>name = lit ''Beta'', address = lit ''B2'', rssi = Some (- 1000)\<rparr>]
   \<and> same_group (sort_found found_mixed ! 1) (sort_found found_mixed ! 2)
   \<and> same_group (sort_found found_mixed ! 1) (sort_found found_mixed ! 0)
   \<and> rssi (sort_found found_mixed ! 1) = Some 0
   \<and> rssi (sort_found found_mixed ! 2) = Some (- 1000)
   \<and> rssi (sort_found found_mixed ! 0) = Some (- 40)
   \<and> (0::nat) < 1 \<and> (1::nat) < 2"
proof -
  have ex: "sort_found found_mixed =
     [\<lparr>name = lit ''Gamma'', address = lit ''C3'', rssi = Some (- 40)\<rparr>,
      \<lparr>name = lit ''Alpha'', address = lit ''A1'', rssi = Some 0\<rparr>,
      \<lparr>name = lit ''Beta'', address = lit ''B2'', rssi = Some (- 1000)\<rparr>]"
    by (simp add: sort_found_def found_mixed_def scan_key_def rssi_or_def lit_def)
  from zero_rssi_as_missing [of found_mixed]
  have "sort_found (map zero_as_missing found_mixed) = map zero_as_missing (sort_found found_mixed)"
    by blast
  then have z: "sort_found (map zero_as_missing found_mixed) =
     [\<lparr>name = lit ''Gamma'', address = lit ''C3'', rssi = Some (- 40)\<rparr>,
      \<lparr>name = lit ''Alpha'', address = lit ''A1'', rssi = None\<rparr>,
      \<lparr>name = lit ''Beta'', address = lit ''B2'', rssi = Some (- 1000)\<rparr>]"
    unfolding ex by (simp add: zero_as_missing_def)
  have g: "same_group (sort_found found_mixed ! 1) (sort_found found_mixed ! 2)"
    "same_group (sort_found found_mixed ! 1) (sort_found found_mixed ! 0)"
    "rssi (sort_found found_mixed ! 1) = Some 0"
    "rssi (sort_found found_mixed ! 2) = Some (- 1000)"
    "rssi (sort_found found_mixed ! 0) = Some (- 40)"
    "1 < length (sort_found found_mixed)" "2 < length (sort_found found_mixed)"
    "0 < length (sort_found found_mixed)"
    unfolding ex by (simp_all add: same_group_def lit_def)
  from zero_rssi_as_missing [of found_mixed 1 2 "- 1000"] g
  have p1: "(1::nat) < 2" by simp
  from zero_rssi_as_missing [of found_mixed 1 0 "- 40"] g
  have p2: "(0::nat) < 1" by simp
  from ex z g(1-5) p2 p1 show ?thesis by (intro conjI)
qed

subsection \<open>The sampling pipeline\<close>

lemma process_sample_emits:
  assumes "logging_start_time s = Some t0" "t0 \<noteq> 0"
  shows "data_buffer (process_sample ts s)
         = deque_append 10000 (data_buffer s) (make_sample ts t0 s)"
  using assms by (simp add: process_sample_def Let_def split: option.splits)

lemma process_sample_keeps:
  "pending_data (process_sample ts s) = pending_data s"
  "calibration_factors (process_sample ts s) = calibration_factors s"
  "logging_start_time (process_sample ts s) = logging_start_time s"
  "current_state (process_sample ts s) = current_state s"
  by (simp_all add: process_sample_def Let_def split: option.splits)

lemma deque_append_last:
  "0 < n \<Longrightarrow> deque_append n d x \<noteq> [] \<and> last (deque_append n d x) = x"
  by (cases d) (simp_all add: deque_append_def Let_def)

lemma deque_append_butlast:
  "0 < n \<Longrightarrow> butlast (deque_append n d x) = (if n \<le> length d then tl d else d)"
  by (cases d) (simp_all add: deque_append_def Let_def)

lemma update_calibration_keeps:
  "data_buffer (update_calibration conv s) = data_buffer s"
  "csv_file (update_calibration conv s) = csv_file s"
  "pending_data (update_calibration conv s) = pending_data s"
  by (simp_all add: update_calibration_def)

text \<open>
  C4: when a sample is emitted (a session has been started), the sample appended to the
  history holds, for each channel, nothing if the pending value is absent and else the
  pending value times the channel's factor of that moment; the pending values stay raw; the
  samples already in the history stay as they are, but for the oldest when the history is
  full; and an update of the factors changes neither the history nor the rows written nor
  the pending values.
\<close>

theorem calibration_at_emission:
  assumes "logging_start_time s = Some t0" "t0 \<noteq> 0"
  shows "data_buffer (process_sample ts s) \<noteq> []
       \<and> ct_clamp (last (data_buffer (process_sample ts s)))
           = map_option (\<lambda>v. v * calibration_factors s Ct_clamp) (pending_data s Ct_clamp)
       \<and> hall1 (last (data_buffer (process_sample ts s)))
           = map_option (\<lambda>v. v * calibration_factors s Hall1) (pending_data s Hall1)
       \<and> hall2 (last (data_buffer (process_sample ts s)))
           = map_option (\<lambda>v. v * calibration_factors s Hall2) (pending_data s Hall2)
       \<and> pending_data (process_sample ts s) = pending_data s
       \<and> butlast (data_buffer (process_sample ts s))
           = (if 10000 \<le> length (data_buffer s) then tl (data_buffer s) else data_buffer s)
       \<and> data_buffer (update_calibration conv s') = data_buffer s'
       \<and> csv_file (update_calibration conv s') = csv_file s'
       \<and> pending_data (update_calibration conv s') = pending_data s'"
proof -
  note e = process_sample_emits [OF assms, of ts]
  have l: "data_buffer (process_sample ts s) \<noteq> []"
    "last (data_buffer (process_sample ts s)) = make_sample ts t0 s"
    unfolding e using deque_append_last [of 10000 "data_buffer s" "make_sample ts t0 s"] by simp_all
  have b: "butlast (data_buffer (process_sample ts s))
      = (if 10000 \<le> length (data_buffer s) then tl (data_buffer s) else data_buffer s)"
    unfolding e using deque_append_butlast [of 10000 "data_buffer s" "make_sample ts t0 s"] by simp
  have c: "ct_clamp (make_sample ts t0 s)
        = map_option (\<lambda>v. v * calibration_factors s Ct_clamp) (pending_data s Ct_clamp)"
    "hall1 (make_sample ts t0 s)
        = map_option (\<lambda>v. v * calibration_factors s Hall1) (pending_data s Hall1)"
    "hall2 (make_sample ts t0 s)
        = map_option (\<lambda>v. v * calibration_factors s Hall2) (pending_data s Hall2)"
    by (simp_all add: make_sample_def calibrated_def split: option.splits)
  from l b c show ?thesis
    by (simp add: process_sample_keeps update_calibration_keeps)
qed

theorem calibration_at_emission_witness:
  "logging_start_time app_logging = Some 100
   \<and> calibration_factors app_logging Ct_clamp = 2
   \<and> pending_data app_logging Ct_clamp = Some (3 / 2)
   \<and> ct_clamp (last (data_buffer (process_sample 101 app_logging))) = Some 3
   \<and> hall1 (last (data_buffer (process_sample 101 app_logging))) = None
   \<and> data_buffer (update_calibration (\<lambda>key. Inr 5) (process_sample 101 app_logging))
       = data_buffer (process_sample 101 app_logging)"
proof -
  have h: "logging_start_time app_logging = Some 100" "(100::rat) \<noteq> 0"
    by (simp_all add: app_logging_def)
  have f: "calibration_factors app_logging Ct_clamp = 2"
    "pending_data app_logging Ct_clamp = Some (3 / 2)"
    "pending_data app_logging Hall1 = None"
    by (simp_all add: app_logging_def no_reading_def)
  note inst = calibration_at_emission [OF h, of 101 "\<lambda>key. Inr 5" "process_sample 101 app_logging"]
  from inst have "ct_clamp (last (data_buffer (process_sample 101 app_logging)))
      = map_option (\<lambda>v. v * calibration_factors app_logging Ct_clamp)
          (pending_data app_logging Ct_clamp)" by blast
  then have a: "ct_clamp (last (data_buffer (process_sample 101 app_logging))) = Some 3"
    by (simp add: f)
  from inst have "hall1 (last (data_buffer (process_sample 101 app_logging)))
      = map_option (\<lambda>v. v * calibration_factors app_logging Hall1)
          (pending_data app_logging Hall1)" by blast
  then have b: "hall1 (last (data_buffer (process_sample 101 app_logging))) = None"
    by (simp add: f)
  from inst have c: "data_buffer (update_calibration (\<lambda>key. Inr 5) (process_sample 101 app_logging))
       = data_buffer (process_sample 101 app_logging)" by blast
  from h(1) f(1,2) a b c show ?thesis by (intro conjI)
qed

subsection \<open>Pending values\<close>

lemma emit_all_pending: "pending_data (emit_all tss s) = pending_data s"
proof -
  have "pending_data (foldl (\<lambda>s1 ts. process_sample ts s1) s tss) = pending_data s"
    by (induction tss arbitrary: s) (simp_all add: process_sample_keeps)
  then show ?thesis by (simp add: emit_all_def)
qed

lemma on_rx_pending:
  assumes "parse (parser_buffer s) data = Inr (b, parsed)"
  shows "\<exists>s'. on_rx data now s = Inr s'
           \<and> pending_data s' = merge_pending (pending_data s) parsed"
  using assms by (simp add: on_rx_def Let_def process_sample_keeps)

lemma rx_all_pending:
  "\<exists>s'. rx_all evs s = Inr s'
     \<and> (\<forall>key. pending_data s key \<noteq> None \<longrightarrow> pending_data s' key \<noteq> None)"
proof (induction evs arbitrary: s)
  case Nil
  then show ?case by simp
next
  case (Cons ev evs)
  obtain b parsed where p: "parse (parser_buffer s) (fst ev) = Inr (b, parsed)"
    by (simp add: parse_eq)
  from on_rx_pending [OF p] obtain s1 where
    s1: "on_rx (fst ev) (snd ev) s = Inr s1"
      "pending_data s1 = merge_pending (pending_data s) parsed"
    by blast
  have k: "pending_data s key \<noteq> None \<longrightarrow> pending_data s1 key \<noteq> None" for key
    by (simp add: s1(2) merge_pending_apply split: option.splits)
  from Cons.IH [of s1] obtain s' where
    "rx_all evs s1 = Inr s'"
    "\<forall>key. pending_data s1 key \<noteq> None \<longrightarrow> pending_data s' key \<noteq> None"
    by blast
  with s1(1) k show ?case by auto
qed

text \<open>
  C5: the \<^verbatim>\<open>rx\<close> branch never raises, and behind it, whether or not it emitted a sample,
  every channel that the call's dictionary leaves absent holds the pending value it held
  before, and every other channel holds the parsed value. Emitting a sample, once or many
  times, leaves the pending values as they are. So over any sequence of \<^verbatim>\<open>rx\<close> events, with
  the samples they emit, a channel that holds a value never goes back to absent. (The
  pending values are set back only where a session is started, which is neither a merge
  nor an emission.)
\<close>

theorem pending_persists:
  "(\<exists>s' b parsed. parse (parser_buffer s) data = Inr (b, parsed)
       \<and> on_rx data now s = Inr s'
       \<and> (\<forall>key. pending_data s' key
              = (case parsed key of None \<Rightarrow> pending_data s key | Some v \<Rightarrow> Some v)))
   \<and> pending_data (process_sample ts s) = pending_data s
   \<and> pending_data (emit_all tss s) = pending_data s
   \<and> (\<exists>s'. rx_all evs s = Inr s'
         \<and> (\<forall>key. pending_data s key \<noteq> None \<longrightarrow> pending_data s' key \<noteq> None))"
proof -
  obtain b parsed where p: "parse (parser_buffer s) data = Inr (b, parsed)"
    by (simp add: parse_eq)
  from on_rx_pending [OF p] obtain s' where
    "on_rx data now s = Inr s'" "pending_data s' = merge_pending (pending_data s) parsed"
    by blast
  with p have a: "\<exists>s' b parsed. parse (parser_buffer s) data = Inr (b, parsed)
       \<and> on_rx data now s = Inr s'
       \<and> (\<forall>key. pending_data s' key
              = (case parsed key of None \<Rightarrow> pending_data s key | Some v \<Rightarrow> Some v))"
    by (auto simp: merge_pending_apply)
  have b: "pending_data (process_sample ts s) = pending_data s"
    by (simp add: process_sample_keeps)
  have c: "pending_data (emit_all tss s) = pending_data s" by (simp add: emit_all_pending)
  from a b c rx_all_pending [of evs s] show ?thesis by (intro conjI)
qed

theorem pending_persists_witness:
  "parse (parser_buffer app_logging) rx_hall1 = Inr ([], no_reading(Hall1 \<mapsto> 2))
   \<and> pending_data app_logging Ct_clamp = Some (3 / 2)
   \<and> (\<exists>s'. on_rx rx_hall1 101 app_logging = Inr s'
          \<and> pending_data s' Ct_clamp = Some (3 / 2)
          \<and> pending_data s' Hall1 = Some 2
          \<and> pending_data s' Hall2 = None
          \<and> length (data_buffer s') = 1)
   \<and> (\<exists>s'. rx_all [(rx_hall1, 101), (rx_hall1, 102)] app_logging = Inr s'
          \<and> pending_data s' Ct_clamp \<noteq> None)"
proof -
  have p: "parse (parser_buffer app_logging) rx_hall1 = Inr ([], no_reading(Hall1 \<mapsto> 2))"
    by (simp add: app_logging_def rx_hall1_def parser_eval)
  have c: "pending_data app_logging Ct_clamp = Some (3 / 2)"
    "pending_data app_logging Hall1 = None" "pending_data app_logging Hall2 = None"
    by (simp_all add: app_logging_def no_reading_def)
  note inst = pending_persists [of app_logging rx_hall1 101 _ _ "[(rx_hall1, 101), (rx_hall1, 102)]"]
  from inst
  obtain s' b parsed where q: "parse (parser_buffer app_logging) rx_hall1 = Inr (b, parsed)"
    and r: "on_rx rx_hall1 101 app_logging = Inr s'"
    and m: "\<forall>key. pending_data s' key
              = (case parsed key of None \<Rightarrow> pending_data app_logging key | Some v \<Rightarrow> Some v)"
    by blast
  from p q have parsed: "parsed = no_reading(Hall1 \<mapsto> 2)" by simp
  have v: "pending_data s' Ct_clamp = Some (3 / 2)" "pending_data s' Hall1 = Some 2"
    "pending_data s' Hall2 = None"
    using m c by (simp_all add: parsed no_reading_def)
  have "on_rx rx_hall1 101 app_logging
      = Inr ((process_sample 101
               (app_logging\<lparr>parser_buffer := [],
                  pending_data := merge_pending (pending_data app_logging)
                    (no_reading(Hall1 \<mapsto> 2))\<rparr>))\<lparr>last_sample_time := 101\<rparr>)"
    by (simp add: on_rx_def p Let_def) (simp add: app_logging_def)
  with r have "length (data_buffer s') = 1"
    by (auto simp: process_sample_def Let_def deque_append_def app_logging_def)
  with r v have one: "\<exists>s'. on_rx rx_hall1 101 app_logging = Inr s'
          \<and> pending_data s' Ct_clamp = Some (3 / 2)
          \<and> pending_data s' Hall1 = Some 2
          \<and> pending_data s' Hall2 = None
          \<and> length (data_buffer s') = 1" by blast
  from inst obtain s2 where "rx_all [(rx_hall1, 101), (rx_hall1, 102)] app_logging = Inr s2"
    "\<forall>key. pending_data app_logging key \<noteq> None \<longrightarrow> pending_data s2 key \<noteq> None"
    by blast
  with c(1) have two: "\<exists>s'. rx_all [(rx_hall1, 101), (rx_hall1, 102)] app_logging = Inr s'
          \<and> pending_data s' Ct_clamp \<noteq> None" by auto
  from p c(1) one two show ?thesis by (intro conjI)
qed

subsection \<open>The history\<close>

lemma deque_append_short: "length d < n \<Longrightarrow> deque_append n d x = d @ [x]"
  by (simp add: deque_append_def Let_def)

lemma deque_append_full: "n \<le> length d \<Longrightarrow> deque_append n d x = tl (d @ [x])"
  by (simp add: deque_append_def Let_def)

lemma foldl_deque_append:
  "length xs \<le> n \<Longrightarrow>
     foldl (deque_append n) xs ys = drop (length xs + length ys - n) (xs @ ys)"
proof (induction ys rule: rev_induct)
  case Nil
  then show ?case by simp
next
  case (snoc y ys)
  define zs where "zs = xs @ ys"
  define k where "k = length zs - n"
  define d where "d = drop k zs"
  have f: "foldl (deque_append n) xs (ys @ [y]) = deque_append n d y"
    using snoc by (simp add: d_def k_def zs_def)
  have g: "xs @ ys @ [y] = zs @ [y]" "length xs + length (ys @ [y]) = Suc (length zs)"
    by (simp_all add: zs_def)
  show ?case
  proof (cases "length zs < n")
    case True
    then have z: "k = 0" "Suc (length zs) - n = 0" by (simp_all add: k_def)
    have "length d < n" using True by (simp add: d_def z)
    then have "deque_append n d y = d @ [y]" by (rule deque_append_short)
    then show ?thesis unfolding f g z by (simp add: d_def z)
  next
    case False
    then have l: "n \<le> length d" by (simp add: d_def k_def)
    have k': "Suc (length zs) - n = Suc k" using False by (simp add: k_def)
    have kl: "k \<le> length zs" by (simp add: k_def)
    have "deque_append n d y = tl (d @ [y])" using l by (rule deque_append_full)
    also have "d @ [y] = drop k (zs @ [y])" using kl unfolding d_def by simp
    also have "tl \<dots> = drop (Suc k) (zs @ [y])" by (simp only: drop_Suc tl_drop)
    finally show ?thesis unfolding f g k' .
  qed
qed

lemma make_sample_process_sample:
  "make_sample ts t0 (process_sample ts' s) = make_sample ts t0 s"
  by (simp add: make_sample_def calibrated_def process_sample_keeps split: option.splits)

lemma data_buffer_emit_all:
  assumes "logging_start_time s = Some t0" "t0 \<noteq> 0"
  shows "data_buffer (emit_all tss s)
         = foldl (deque_append 10000) (data_buffer s) (map (\<lambda>ts. make_sample ts t0 s) tss)"
proof -
  have "data_buffer (foldl (\<lambda>s1 ts. process_sample ts s1) s tss)
      = foldl (deque_append 10000) (data_buffer s) (map (\<lambda>ts. make_sample ts t0 s) tss)"
    using assms(1)
  proof (induction tss arbitrary: s)
    case Nil
    then show ?case by simp
  next
    case (Cons ts tss)
    have "logging_start_time (process_sample ts s) = Some t0"
      using Cons.prems by (simp add: process_sample_keeps)
    from Cons.IH [OF this] show ?case
      using process_sample_emits [OF Cons.prems assms(2), of ts]
      by (simp add: make_sample_process_sample)
  qed
  then show ?thesis by (simp add: emit_all_def)
qed

text \<open>
  C6: a history of capacity 10000 to which 10001 values are appended, starting empty,
  holds the last 10000 of them in the order of appending. An emission appends its sample
  to the history in that way, so 10001 emissions into an empty history leave the samples
  of the second to the last emission, in that order, and when the emission times differ
  from one another the sample of the first emission is not among them.
\<close>

theorem history_keeps_latest:
  "(length xs = 10001
      \<longrightarrow> foldl (deque_append 10000) [] xs = tl xs
          \<and> length (foldl (deque_append 10000) [] xs) = 10000)
   \<and> (logging_start_time s = Some t0 \<and> t0 \<noteq> 0
      \<longrightarrow> data_buffer (process_sample ts s)
            = deque_append 10000 (data_buffer s) (make_sample ts t0 s))
   \<and> (logging_start_time s = Some t0 \<and> t0 \<noteq> 0 \<and> data_buffer s = [] \<and> length tss = 10001
      \<longrightarrow> data_buffer (emit_all tss s) = map (\<lambda>ts. make_sample ts t0 s) (tl tss)
          \<and> length (data_buffer (emit_all tss s)) = 10000
          \<and> map timestamp (data_buffer (emit_all tss s)) = tl tss
          \<and> (distinct tss \<longrightarrow> make_sample (hd tss) t0 s \<notin> set (data_buffer (emit_all tss s))))"
proof -
  have d: "foldl (deque_append 10000) [] ys = tl ys" if "length ys = 10001" for ys :: "'b list"
  proof -
    have "foldl (deque_append 10000) [] ys = drop (length ys - 10000) ys"
      using foldl_deque_append [of "[]" 10000 ys] by simp
    also have "length ys - 10000 = 1" using that by simp
    finally show ?thesis by (simp add: drop_Suc)
  qed
  have a: "length xs = 10001
      \<longrightarrow> foldl (deque_append 10000) [] xs = tl xs
          \<and> length (foldl (deque_append 10000) [] xs) = 10000"
    using d [of xs] by simp
  have b: "logging_start_time s = Some t0 \<and> t0 \<noteq> 0
      \<longrightarrow> data_buffer (process_sample ts s)
            = deque_append 10000 (data_buffer s) (make_sample ts t0 s)"
    using process_sample_emits [of s t0 ts] by blast
  have c: "data_buffer (emit_all tss s) = map (\<lambda>ts. make_sample ts t0 s) (tl tss)
          \<and> length (data_buffer (emit_all tss s)) = 10000
          \<and> map timestamp (data_buffer (emit_all tss s)) = tl tss
          \<and> (distinct tss \<longrightarrow> make_sample (hd tss) t0 s \<notin> set (data_buffer (emit_all tss s)))"
    if h: "logging_start_time s = Some t0" "t0 \<noteq> 0" "data_buffer s = []" "length tss = 10001"
  proof -
    have e: "data_buffer (emit_all tss s) = map (\<lambda>ts. make_sample ts t0 s) (tl tss)"
      using data_buffer_emit_all [OF h(1,2), of tss] d [of "map (\<lambda>ts. make_sample ts t0 s) tss"]
        h(3,4) by (simp add: map_tl)
    have t: "map timestamp (map (\<lambda>ts. make_sample ts t0 s) (tl tss)) = tl tss"
      by (simp add: make_sample_def comp_def)
    have n: "make_sample (hd tss) t0 s \<notin> set (map (\<lambda>ts. make_sample ts t0 s) (tl tss))"
      if "distinct tss"
    proof
      assume "make_sample (hd tss) t0 s \<in> set (map (\<lambda>ts. make_sample ts t0 s) (tl tss))"
      then obtain ts where "ts \<in> set (tl tss)" "make_sample ts t0 s = make_sample (hd tss) t0 s"
        by auto
      then have "hd tss \<in> set (tl tss)" by (simp add: make_sample_def)
      moreover have "tss \<noteq> []" using h(4) by auto
      ultimately show False using that by (cases tss) auto
    qed
    show ?thesis unfolding e using t n h(4) by simp
  qed
  from a b c show ?thesis by blast
qed

theorem history_keeps_latest_witness:
  "length (map rat_of_nat [0..<10001]) = 10001
   \<and> distinct (map rat_of_nat [0..<10001])
   \<and> logging_start_time app_logging = Some 100
   \<and> data_buffer app_logging = []
   \<and> foldl (deque_append 10000) [] (map rat_of_nat [0..<10001]) = map rat_of_nat [1..<10001]
   \<and> length (data_buffer (emit_all (map rat_of_nat [0..<10001]) app_logging)) = 10000
   \<and> map timestamp (data_buffer (emit_all (map rat_of_nat [0..<10001]) app_logging))
       = map rat_of_nat [1..<10001]
   \<and> make_sample 0 100 app_logging
       \<notin> set (data_buffer (emit_all (map rat_of_nat [0..<10001]) app_logging))"
proof -
  let ?tss = "map rat_of_nat [0..<10001]"
  have l: "length ?tss = 10001" by simp
  have d: "distinct ?tss" by (simp add: distinct_map inj_on_def)
  have h: "logging_start_time app_logging = Some 100" "(100::rat) \<noteq> 0"
    "data_buffer app_logging = []"
    by (simp_all add: app_logging_def)
  have t: "tl ?tss = map rat_of_nat [1..<10001]" by (simp add: map_tl [symmetric] tl_upt)
  have hd: "hd ?tss = 0" by (simp add: hd_map)
  note inst = history_keeps_latest [of ?tss app_logging 100 _ ?tss]
  from inst l have a: "foldl (deque_append 10000) [] ?tss = tl ?tss" by blast
  from inst h l have b: "length (data_buffer (emit_all ?tss app_logging)) = 10000"
    and c: "map timestamp (data_buffer (emit_all ?tss app_logging)) = tl ?tss"
    and e: "distinct ?tss \<longrightarrow> make_sample (hd ?tss) 100 app_logging
        \<notin> set (data_buffer (emit_all ?tss app_logging))"
    by blast+
  from e d have f: "make_sample 0 100 app_logging
      \<notin> set (data_buffer (emit_all ?tss app_logging))" unfolding hd by blast
  from l d h(1,3) a b c f show ?thesis unfolding t by (intro conjI)
qed

subsection \<open>A state button while not logging\<close>

text \<open>
  C9: while no session is active, pressing a state button returns normally and changes
  nothing but the log, to which it appends the line that says the change was ignored: the
  current state, its display, the state changes, the history, the pending values and all
  else stay as they are.
\<close>

theorem state_change_ignored:
  assumes "\<not> is_logging s"
  shows "on_state_button fmt st now1 now2 s
         = Inr (s\<lparr>log_text := log_text s @ lit ''State change ignored: Not logging.'' @ [0x0A]\<rparr>)"
  using assms by (simp add: on_state_button_def)

theorem state_change_ignored_witness:
  "\<not> is_logging app_idle
   \<and> on_state_button (\<lambda>elapsed. []) (lit ''Wash'') 5 5 app_idle
       = Inr (app_idle\<lparr>log_text := lit ''State change ignored: Not logging.'' @ [0x0A]\<rparr>)
   \<and> current_state app_idle = lit ''Off''"
proof -
  have h: "\<not> is_logging app_idle" by (simp add: app_idle_def)
  have l: "log_text app_idle = []" "current_state app_idle = lit ''Off''"
    by (simp_all add: app_idle_def)
  from state_change_ignored [OF h, of "\<lambda>elapsed. []" "lit ''Wash''" 5 5]
  have "on_state_button (\<lambda>elapsed. []) (lit ''Wash'') 5 5 app_idle
       = Inr (app_idle\<lparr>log_text := lit ''State change ignored: Not logging.'' @ [0x0A]\<rparr>)"
    by (simp add: l)
  with h l show ?thesis by blast
qed

subsection \<open>Connecting\<close>

lemma disconnect_silent_keeps:
  "client (disconnect_silent stop disc w) = None"
  "connected_address (disconnect_silent stop disc w) = None \<or> client w = None"
  "events (disconnect_silent stop disc w) = events w"
  "clients_made (disconnect_silent stop disc w) = clients_made w"
  by (simp_all add: disconnect_silent_def Let_def split: option.splits outcome.splits)

lemma disconnect_silent_idle: "client w = None \<Longrightarrow> disconnect_silent stop disc w = w"
  by (simp add: disconnect_silent_def)

lemma new_client_keeps:
  "client (new_client r w0) = client w0"
  "events (new_client r w0) = events w0"
  "filter is_teardown (calls (new_client r w0)) = filter is_teardown (calls w0)"
  "Connect (clients_made w0) \<in> set (calls (new_client r w0))"
  by (simp_all add: new_client_def Let_def)

lemma fetch_services_keeps:
  assumes "fetch_services r c w = (res, w')"
  shows "client w' = client w" "events w' = events w"
    "filter is_teardown (calls w') = filter is_teardown (calls w)"
    "set (calls w) \<subseteq> set (calls w')"
  using assms
  by (auto simp: fetch_services_def Let_def split: option.splits outcome.splits if_splits)

lemma subscribe_fails:
  assumes "subscribe r addr c w = (Some e, w')"
  shows "client w' = client w" "events w' = events w"
    "filter is_teardown (calls w') = filter is_teardown (calls w)"
    "set (calls w) \<subseteq> set (calls w')"
  using assms by (auto simp: subscribe_def Let_def split: outcome.splits)

lemma subscribe_succeeds:
  assumes "subscribe r addr c w = (None, w')"
  shows "client w' = Some c"
    "events w' = events w @ [Status (lit ''Connected to '' @ addr), Connected True]"
  using assms by (auto simp: subscribe_def Let_def split: outcome.splits)

lemma check_and_subscribe_cases:
  assumes "check_and_subscribe r addr c w3 = (res, w')"
  obtains w4 e where "fetch_services r c w3 = (Inl e, w4)" "res = Some e" "w' = w4"
  | w4 sv where "fetch_services r c w3 = (sv, w4)" "subscribe r addr c w4 = (res, w')"
  | w4 sv where "fetch_services r c w3 = (sv, w4)"
      "res = Some (lit ''Device missing NUS service '' @ NUS_SERVICE_UUID)"
      "w' = w4\<lparr>calls := calls w4 @ [Get_service c]\<rparr>"
  | w4 sv where "fetch_services r c w3 = (sv, w4)"
      "subscribe r addr c (w4\<lparr>calls := calls w4 @ [Get_service c]\<rparr>) = (res, w')"
proof -
  obtain f w4 where f: "fetch_services r c w3 = (f, w4)" by (cases "fetch_services r c w3")
  show ?thesis
  proof (cases f)
    case (Inl e)
    with assms f that(1) show ?thesis by (simp add: check_and_subscribe_def)
  next
    case (Inr sv)
    show ?thesis
    proof (cases sv)
      case None
      with assms f Inr that(2) show ?thesis by (simp add: check_and_subscribe_def)
    next
      case (Some s)
      show ?thesis
      proof (cases "has_get_service s")
        case False
        with assms f Inr Some that(2) show ?thesis by (simp add: check_and_subscribe_def)
      next
        case g: True
        show ?thesis
        proof (cases "nus_service s")
          case False
          with assms f Inr Some g that(3) [of f w4] show ?thesis
            by (simp add: check_and_subscribe_def Let_def)
        next
          case True
          with assms f Inr Some g that(4) [of f w4] show ?thesis
            by (simp add: check_and_subscribe_def Let_def)
        qed
      qed
    qed
  qed
qed

lemma check_and_subscribe_fails:
  assumes "check_and_subscribe r addr c w3 = (Some e, w')"
  shows "client w' = client w3 \<and> events w' = events w3
     \<and> filter is_teardown (calls w') = filter is_teardown (calls w3)
     \<and> set (calls w3) \<subseteq> set (calls w')"
  using assms
proof (cases rule: check_and_subscribe_cases)
  case (1 w4 e)
  with fetch_services_keeps [OF 1(1)] show ?thesis by simp
next
  case (2 w4 sv)
  from fetch_services_keeps [OF 2(1)] subscribe_fails [OF 2(2)] show ?thesis by auto
next
  case (3 w4 sv)
  with fetch_services_keeps [OF 3(1)] show ?thesis by auto
next
  case (4 w4 sv)
  from fetch_services_keeps [OF 4(1)] subscribe_fails [OF 4(2)] show ?thesis by auto
qed

lemma check_and_subscribe_succeeds:
  assumes "check_and_subscribe r addr c w3 = (None, w')"
  shows "client w' = Some c
     \<and> events w' = events w3 @ [Status (lit ''Connected to '' @ addr), Connected True]"
  using assms
proof (cases rule: check_and_subscribe_cases)
  case (2 w4 sv)
  from fetch_services_keeps [OF 2(1)] subscribe_succeeds [OF 2(2)] show ?thesis by simp
next
  case (4 w4 sv)
  from fetch_services_keeps [OF 4(1)] subscribe_succeeds [OF 4(2)] show ?thesis by simp
qed simp_all

lemma try_connect_fails:
  assumes "try_connect r addr w0 = (Some e, w1)"
  shows "client w1 = client w0 \<and> events w1 = events w0
     \<and> filter is_teardown (calls w1) = filter is_teardown (calls w0)
     \<and> Connect (clients_made w0) \<in> set (calls w1)"
proof (cases "\<exists>ok. connect_result r = Returns ok \<and> (ok \<or> is_connected r)")
  case False
  then have "w1 = new_client r w0"
    using assms by (auto simp: try_connect_def Let_def split: outcome.splits if_splits)
  then show ?thesis by (simp add: new_client_keeps)
next
  case True
  then have "check_and_subscribe r addr (clients_made w0) (new_client r w0) = (Some e, w1)"
    using assms by (auto simp: try_connect_def Let_def split: outcome.splits if_splits)
  from check_and_subscribe_fails [OF this] new_client_keeps [where r = r and ?w0.0 = w0]
  show ?thesis by auto
qed

lemma try_connect_succeeds:
  assumes "try_connect r addr w0 = (None, w1)"
  shows "events w1 = events w0 @ [Status (lit ''Connected to '' @ addr), Connected True]
     \<and> client w1 = Some (clients_made w0)"
proof -
  have "check_and_subscribe r addr (clients_made w0) (new_client r w0) = (None, w1)"
    using assms by (auto simp: try_connect_def Let_def split: outcome.splits if_splits)
  from check_and_subscribe_succeeds [OF this] show ?thesis by (simp add: new_client_keeps)
qed

text \<open>
  C2. A Connect that fails puts an error event that carries the cause and then a
  connected=false event, and a Connect that succeeds puts a status event and then a
  connected=true event; an error of \<^verbatim>\<open>stop_notify\<close> or \<^verbatim>\<open>disconnect\<close> is never passed
  on. But a Connect that fails does not tear down the link it began: the client object
  is bound to \<^verbatim>\<open>self._client\<close> only when every step has succeeded, so the
  \<^verbatim>\<open>_disconnect_silent\<close> of the \<^verbatim>\<open>except\<close> branch finds no client and returns at once.
  Of the operations that end a link, the run has made those of the first
  \<^verbatim>\<open>_disconnect_silent\<close>, on the client held before, and no others, although
  \<^verbatim>\<open>connect\<close> was called on the new client.
\<close>

theorem failed_connect_not_torn_down:
  "(fst (try_connect r addr (disconnect_silent (old_stop_notify r) (old_disconnect r) w)) = Some e
      \<longrightarrow> events (connect_and_post r addr w)
            = events w @ [Error (lit ''Connect failed: '' @ e), Connected False]
          \<and> client (connect_and_post r addr w) = None
          \<and> Connect (clients_made w) \<in> set (calls (connect_and_post r addr w))
          \<and> filter is_teardown (calls (connect_and_post r addr w))
              = filter is_teardown
                  (calls (disconnect_silent (old_stop_notify r) (old_disconnect r) w)))
   \<and> (fst (try_connect r addr (disconnect_silent (old_stop_notify r) (old_disconnect r) w)) = None
      \<longrightarrow> events (connect_and_post r addr w)
            = events w @ [Status (lit ''Connected to '' @ addr), Connected True]
          \<and> client (connect_and_post r addr w) = Some (clients_made w))"
proof -
  define w0 where "w0 = disconnect_silent (old_stop_notify r) (old_disconnect r) w"
  obtain res w1 where t: "try_connect r addr w0 = (res, w1)" by (cases "try_connect r addr w0")
  have k: "client w0 = None" "events w0 = events w" "clients_made w0 = clients_made w"
    by (simp_all add: w0_def disconnect_silent_keeps)
  have a: "events (connect_and_post r addr w)
            = events w @ [Error (lit ''Connect failed: '' @ e), Connected False]
          \<and> client (connect_and_post r addr w) = None
          \<and> Connect (clients_made w) \<in> set (calls (connect_and_post r addr w))
          \<and> filter is_teardown (calls (connect_and_post r addr w))
              = filter is_teardown (calls w0)"
    if "res = Some e"
  proof -
    from t that have t': "try_connect r addr w0 = (Some e, w1)" by simp
    from try_connect_fails [OF t'] k
    have f: "client w1 = None" "events w1 = events w"
      "filter is_teardown (calls w1) = filter is_teardown (calls w0)"
      "Connect (clients_made w) \<in> set (calls w1)" by simp_all
    have "connect_and_post r addr w
        = (w1\<lparr>events := events w1 @ [Error (lit ''Connect failed: '' @ e)]\<rparr>)
            \<lparr>events := events w1 @ [Error (lit ''Connect failed: '' @ e)] @ [Connected False]\<rparr>"
      using t' f(1)
      by (simp add: connect_and_post_def Let_def w0_def [symmetric] disconnect_silent_idle)
    with f show ?thesis by simp
  qed
  have b: "events (connect_and_post r addr w)
            = events w @ [Status (lit ''Connected to '' @ addr), Connected True]
          \<and> client (connect_and_post r addr w) = Some (clients_made w)"
    if "res = None"
  proof -
    from t that have t': "try_connect r addr w0 = (None, w1)" by simp
    have "connect_and_post r addr w = w1"
      using t' by (simp add: connect_and_post_def Let_def w0_def [symmetric])
    with try_connect_succeeds [OF t'] k show ?thesis by simp
  qed
  from a b show ?thesis unfolding w0_def [symmetric] t by simp
qed

theorem failed_connect_not_torn_down_witness:
  "connect_result radio_no_nus = Returns True
   \<and> fst (try_connect radio_no_nus (lit ''AA:BB'')
            (disconnect_silent (old_stop_notify radio_no_nus) (old_disconnect radio_no_nus)
               worker_idle))
       = Some (lit ''Device missing NUS service '' @ NUS_SERVICE_UUID)
   \<and> events (connect_and_post radio_no_nus (lit ''AA:BB'') worker_idle)
       = [Error (lit ''Connect failed: '' @ lit ''Device missing NUS service '' @ NUS_SERVICE_UUID),
          Connected False]
   \<and> calls (connect_and_post radio_no_nus (lit ''AA:BB'') worker_idle)
       = [Set_disconnected_callback 0, Connect 0, Get_service 0]
   \<and> filter is_teardown (calls (connect_and_post radio_no_nus (lit ''AA:BB'') worker_idle)) = []"
proof -
  have d: "disconnect_silent (old_stop_notify radio_no_nus) (old_disconnect radio_no_nus)
      worker_idle = worker_idle"
    by (simp add: disconnect_silent_def worker_idle_def)
  have c: "connect_result radio_no_nus = Returns True" by (simp add: radio_no_nus_def)
  have t: "try_connect radio_no_nus (lit ''AA:BB'') worker_idle
      = (Some (lit ''Device missing NUS service '' @ NUS_SERVICE_UUID),
         \<lparr>client = None, connected_address = None, events = [],
          calls = [Set_disconnected_callback 0, Connect 0, Get_service 0], clients_made = 1\<rparr>)"
    by (simp add: try_connect_def new_client_def check_and_subscribe_def fetch_services_def
          radio_no_nus_def worker_idle_def Let_def)
  have h: "fst (try_connect radio_no_nus (lit ''AA:BB'')
            (disconnect_silent (old_stop_notify radio_no_nus) (old_disconnect radio_no_nus)
               worker_idle))
       = Some (lit ''Device missing NUS service '' @ NUS_SERVICE_UUID)"
    unfolding d t by simp
  have cs: "calls (connect_and_post radio_no_nus (lit ''AA:BB'') worker_idle)
       = [Set_disconnected_callback 0, Connect 0, Get_service 0]"
    unfolding connect_and_post_def d Let_def t by (simp add: disconnect_silent_def)
  note inst = failed_connect_not_torn_down [of radio_no_nus "lit ''AA:BB''" worker_idle
      "lit ''Device missing NUS service '' @ NUS_SERVICE_UUID"]
  from inst h have e: "events (connect_and_post radio_no_nus (lit ''AA:BB'') worker_idle)
       = events worker_idle
         @ [Error (lit ''Connect failed: '' @ lit ''Device missing NUS service '' @ NUS_SERVICE_UUID),
            Connected False]" by blast
  from inst h have f: "filter is_teardown
        (calls (connect_and_post radio_no_nus (lit ''AA:BB'') worker_idle))
       = filter is_teardown (calls (disconnect_silent (old_stop_notify radio_no_nus)
            (old_disconnect radio_no_nus) worker_idle))" by blast
  have e': "events (connect_and_post radio_no_nus (lit ''AA:BB'') worker_idle)
       = [Error (lit ''Connect failed: '' @ lit ''Device missing NUS service '' @ NUS_SERVICE_UUID),
          Connected False]"
    using e by (simp add: worker_idle_def)
  have f': "filter is_teardown (calls (connect_and_post radio_no_nus (lit ''AA:BB'') worker_idle))
       = []"
    using f unfolding d by (simp add: worker_idle_def)
  from c h e' cs f' show ?thesis by (intro conjI)
qed

end
